theory Spec2Isabelle
  imports Main "HOL-Library.AList" "HOL-Library.Sublist" "HOL-Library.Multiset"
begin

section \<open>Python strings and dictionaries\<close>

text \<open>
  A Python \<open>str\<close> is modelled as a \<open>string\<close>, one \<open>char\<close> per character, for ASCII
  text: \<open>len\<close> is \<open>length\<close>, \<open>s[:n]\<close> with \<open>n \<ge> 0\<close> is \<open>take n s\<close>. The methods of
  \<open>str\<close> that the assistant calls are written out below on that alphabet: \<open>lower\<close>
  changes the 26 ASCII capitals, and whitespace is the ASCII whitespace of Python. The
  properties proved below use of them only that \<open>strip\<close> of a text that is not empty
  after trimming leaves a text that is not empty.
\<close>

definition NL :: char where
  "NL = CHR 0x0A"

definition upper_to_lower :: "(char \<times> char) list" where
  "upper_to_lower = zip ''ABCDEFGHIJKLMNOPQRSTUVWXYZ'' ''abcdefghijklmnopqrstuvwxyz''"

text \<open>\<open>str.lower()\<close>: the letters A to Z are replaced, every other character is kept.\<close>

definition lower_char :: "char \<Rightarrow> char" where
  "lower_char c = (case map_of upper_to_lower c of None \<Rightarrow> c | Some l \<Rightarrow> l)"

definition str_lower :: "string \<Rightarrow> string" where
  "str_lower s = map lower_char s"

text \<open>
  \<open>str.isspace()\<close> on one ASCII character: tab, line feed, vertical tab, form feed,
  carriage return, the four separators 0x1C to 0x1F, and the blank.
\<close>

definition str_isspace :: "char \<Rightarrow> bool" where
  "str_isspace c \<longleftrightarrow>
     c \<in> set [CHR 0x09, CHR 0x0A, CHR 0x0B, CHR 0x0C, CHR 0x0D,
                CHR 0x1C, CHR 0x1D, CHR 0x1E, CHR 0x1F, CHR 0x20]"

text \<open>
  \<open>str.split()\<close> without argument: the maximal runs of non-whitespace characters, in
  order; \<open>cur\<close> is the run being read.
\<close>

fun split_from :: "string \<Rightarrow> string \<Rightarrow> string list" where
  "split_from cur [] = (if cur = [] then [] else [cur])"
| "split_from cur (c # cs) =
     (if str_isspace c
      then (if cur = [] then split_from [] cs else cur # split_from [] cs)
      else split_from (cur @ [c]) cs)"

definition str_split :: "string \<Rightarrow> string list" where
  "str_split s = split_from [] s"

text \<open>\<open>str.strip()\<close>: whitespace removed at both ends.\<close>

definition str_strip :: "string \<Rightarrow> string" where
  "str_strip s = rev (dropWhile str_isspace (rev (dropWhile str_isspace s)))"

text \<open>\<open>sep.join(xs)\<close>.\<close>

fun str_join :: "string \<Rightarrow> string list \<Rightarrow> string" where
  "str_join sep [] = []"
| "str_join sep [x] = x"
| "str_join sep (x # y # ys) = x @ sep @ str_join sep (y # ys)"

text \<open>
  \<open>s.find(t)\<close>: the least index at which \<open>t\<close> starts in \<open>s\<close>, or \<open>-1\<close>; \<open>i\<close> is the
  number of characters already passed. \<open>t in s\<close> is the substring test.
\<close>

fun find_from :: "int \<Rightarrow> string \<Rightarrow> string \<Rightarrow> int" where
  "find_from i t [] = (if t = [] then i else - 1)"
| "find_from i t (c # cs) = (if prefix t (c # cs) then i else find_from (i + 1) t cs)"

definition str_find :: "string \<Rightarrow> string \<Rightarrow> int" where
  "str_find s t = find_from 0 t s"

fun str_in :: "string \<Rightarrow> string \<Rightarrow> bool" where
  "str_in t [] \<longleftrightarrow> t = []"
| "str_in t (c # cs) \<longleftrightarrow> prefix t (c # cs) \<or> str_in t cs"

text \<open>
  \<open>s.split(sep)[-1]\<close> for a one-character separator: what follows the last separator,
  the whole of \<open>s\<close> when there is none. \<open>os.path.basename\<close> is this with \<open>/\<close>.
\<close>

definition after_last :: "char \<Rightarrow> string \<Rightarrow> string" where
  "after_last sep s = rev (takeWhile (\<lambda>c. c \<noteq> sep) (rev s))"

definition basename :: "string \<Rightarrow> string" where
  "basename p = after_last CHR ''/'' p"

text \<open>
  \<open>os.path.splitext(p)[1]\<close>: the extension starts at the last dot of the last path
  component, when a character other than a dot stands before it in that component.
\<close>

definition splitext_ext :: "string \<Rightarrow> string" where
  "splitext_ext p =
     (let base = basename p;
          ext = after_last CHR ''.'' base;
          stem = take (length base - length ext - 1) base
      in if CHR ''.'' \<in> set base \<and> (\<exists>c \<in> set stem. c \<noteq> CHR ''.'') then CHR ''.'' # ext else [])"

text \<open>
  A \<open>dict\<close> keeps its keys distinct and in insertion order: it is an association list,
  \<open>d[k] = v\<close> replaces the value of a key that is present, in place, and appends a new key
  at the end. \<open>d[k]\<close> raises \<open>KeyError\<close> on a missing key.
\<close>

datatype error = KeyError string | IndexError | Exception string

primrec dict_set :: "'k \<Rightarrow> 'v \<Rightarrow> ('k \<times> 'v) list \<Rightarrow> ('k \<times> 'v) list" where
  "dict_set k v [] = [(k, v)]"
| "dict_set k v (p # ps) = (if fst p = k then (k, v) # ps else p # dict_set k v ps)"

definition dict_get :: "(string \<times> 'v) list \<Rightarrow> string \<Rightarrow> error + 'v" where
  "dict_get d k = (case map_of d k of None \<Rightarrow> Inl (KeyError k) | Some v \<Rightarrow> Inr v)"

section \<open>The extraction helper (DataExtractor)\<close>

text \<open>
  The services behind the assistant are parameters of the model. A call to one of them
  either raises, \<open>Inl m\<close> with \<open>m\<close> the text of the exception, or returns:
  \<^item> \<open>list_blobs bucket prefix\<close>: the names of the objects under the prefix;
  \<^item> \<open>download_to_filename bucket name\<close>: the temporary local copy of an object;
  \<^item> \<open>recognize encoding uri\<close>: for every result of the speech service, the transcripts
    of its alternatives;
  \<^item> \<open>annotate_video uri\<close>: for every annotation result and every speech transcription
    in it, the transcripts of its alternatives (the wait of 300 seconds running out is
    one of the exceptions);
  \<^item> \<open>pdf_extract_text\<close>, \<open>docx_paragraphs\<close>, \<open>pptx_shapes\<close> (slides, their shapes, the
    text of a shape that has one), \<open>read_utf8\<close>: the parsers, on a local copy;
  \<^item> \<open>utcnow_isoformat name\<close>: the reading of the UTC clock, in ISO format, at the moment
    the object \<open>name\<close> is stored.
\<close>

datatype audio_encoding = LINEAR16 | FLAC | MP3 | MP4 | ENCODING_UNSPECIFIED

record backends =
  list_blobs :: "string \<Rightarrow> string \<Rightarrow> string + string list"
  download_to_filename :: "string \<Rightarrow> string \<Rightarrow> string + string"
  recognize :: "audio_encoding \<Rightarrow> string \<Rightarrow> string + string list list"
  annotate_video :: "string \<Rightarrow> string + string list list list"
  pdf_extract_text :: "string \<Rightarrow> string + string"
  docx_paragraphs :: "string \<Rightarrow> string + string list"
  pptx_shapes :: "string \<Rightarrow> string + string option list list"
  read_utf8 :: "string \<Rightarrow> string + string"
  utcnow_isoformat :: "string \<Rightarrow> string"

text \<open>
  \<open>[r.alternatives[0].transcript for r in results]\<close>: \<open>IndexError\<close> when a result has no
  alternative.
\<close>

fun first_transcripts :: "string list list \<Rightarrow> error + string list" where
  "first_transcripts [] = Inr []"
| "first_transcripts (alternatives # rest) =
     (case alternatives of
        [] \<Rightarrow> Inl IndexError
      | best_alt # _ \<Rightarrow>
          (case first_transcripts rest of
             Inl e \<Rightarrow> Inl e
           | Inr transcripts \<Rightarrow> Inr (best_alt # transcripts)))"

definition encoding_map :: "string \<Rightarrow> audio_encoding" where
  "encoding_map ext =
     (if ext = ''.wav'' then LINEAR16
      else if ext = ''.flac'' then FLAC
      else if ext = ''.mp3'' then MP3
      else if ext = ''.m4a'' then MP4
      else ENCODING_UNSPECIFIED)"

text \<open>Every extractor turns any exception of its body into the empty text.\<close>

definition extract_from_audio :: "backends \<Rightarrow> string \<Rightarrow> string" where
  "extract_from_audio w gcs_uri =
     (let ext = str_lower (splitext_ext gcs_uri);
          encoding = encoding_map ext
      in case recognize w encoding gcs_uri of
           Inl e \<Rightarrow> []
         | Inr results \<Rightarrow>
             (case first_transcripts results of
                Inl e \<Rightarrow> []
              | Inr transcripts \<Rightarrow> str_strip (str_join '' '' transcripts)))"

definition extract_from_video :: "backends \<Rightarrow> string \<Rightarrow> string" where
  "extract_from_video w gcs_uri =
     (case annotate_video w gcs_uri of
        Inl e \<Rightarrow> []
      | Inr annotation_results \<Rightarrow>
          (case first_transcripts (concat annotation_results) of
             Inl e \<Rightarrow> []
           | Inr transcripts \<Rightarrow> str_strip (str_join '' '' transcripts)))"

definition extract_from_pdf :: "backends \<Rightarrow> string \<Rightarrow> string" where
  "extract_from_pdf w local_path =
     (case pdf_extract_text w local_path of Inl e \<Rightarrow> [] | Inr t \<Rightarrow> str_strip t)"

definition extract_from_docx :: "backends \<Rightarrow> string \<Rightarrow> string" where
  "extract_from_docx w local_path =
     (case docx_paragraphs w local_path of
        Inl e \<Rightarrow> []
      | Inr ps \<Rightarrow> str_strip (str_join [NL] (filter (\<lambda>p. str_strip p \<noteq> []) ps)))"

definition shape_texts :: "string option list \<Rightarrow> string list" where
  "shape_texts shapes =
     concat (map (\<lambda>shape. case shape of
                              None \<Rightarrow> []
                            | Some t \<Rightarrow> (if str_strip t \<noteq> [] then [str_strip t] else []))
                 shapes)"

definition extract_from_pptx :: "backends \<Rightarrow> string \<Rightarrow> string" where
  "extract_from_pptx w local_path =
     (case pptx_shapes w local_path of
        Inl e \<Rightarrow> []
      | Inr slides \<Rightarrow> str_strip (str_join [NL] (concat (map shape_texts slides))))"

definition extract_from_txt :: "backends \<Rightarrow> string \<Rightarrow> string" where
  "extract_from_txt w local_path =
     (case read_utf8 w local_path of Inl e \<Rightarrow> [] | Inr t \<Rightarrow> str_strip t)"

section \<open>The assistant (GenAIDocumentAssistant)\<close>

text \<open>
  The two in-memory stores. The metadata of a document is the dictionary literal of
  \<open>load_documents_from_gcs\<close>, with its four fixed keys.
\<close>

record metadata =
  type :: string
  size_chars :: nat
  gcs_path :: string
  processed_at :: string

record assistant =
  document_contents :: "(string \<times> string) list"
  document_metadata :: "(string \<times> metadata) list"

definition init :: assistant where
  "init = \<lparr>document_contents = [], document_metadata = []\<rparr>"

subsection \<open>load_documents_from_gcs\<close>

definition gs_uri :: "string \<Rightarrow> string \<Rightarrow> string" where
  "gs_uri bucket_name blob_name = ''gs://'' @ bucket_name @ ''/'' @ blob_name"

text \<open>
  The dispatch on the extension of one object: the text and the content type, or the
  exception that leaves the body of the \<open>try\<close> (only the download can raise one; the
  extractors return the empty text instead).
\<close>

definition extract_text :: "backends \<Rightarrow> string \<Rightarrow> string \<Rightarrow> error + string \<times> string" where
  "extract_text w bucket_name blob_name =
     (let file_ext = str_lower (after_last CHR ''.'' blob_name) in
      if file_ext \<in> set [''wav'', ''mp3'', ''flac'', ''m4a'']
      then Inr (extract_from_audio w (gs_uri bucket_name blob_name), ''Audio Transcript'')
      else if file_ext \<in> set [''mp4'', ''avi'', ''mov'', ''mkv'']
      then Inr (extract_from_video w (gs_uri bucket_name blob_name), ''Video Transcript'')
      else if file_ext \<in> set [''pdf'', ''docx'', ''pptx'', ''txt'']
      then (case download_to_filename w bucket_name blob_name of
              Inl m \<Rightarrow> Inl (Exception m)
            | Inr tmp \<Rightarrow>
                if file_ext = ''pdf'' then Inr (extract_from_pdf w tmp, ''PDF Document'')
                else if file_ext = ''docx'' then Inr (extract_from_docx w tmp, ''Word Document'')
                else if file_ext = ''pptx''
                then Inr (extract_from_pptx w tmp, ''PowerPoint Presentation'')
                else if file_ext = ''txt'' then Inr (extract_from_txt w tmp, ''Plain Text'')
                else Inr ([], ''Unknown''))
      else Inr ([], ''Unknown''))"

text \<open>One turn of the loop over the objects: the body of the \<open>try\<close> and its handler.\<close>

definition process_blob :: "backends \<Rightarrow> string \<Rightarrow> assistant \<Rightarrow> string \<Rightarrow> assistant" where
  "process_blob w bucket_name s blob_name =
     (let file_name = basename blob_name in
      case extract_text w bucket_name blob_name of
        Inl exc \<Rightarrow> s
      | Inr (text_content, content_type) \<Rightarrow>
          if str_strip text_content \<noteq> []
          then s\<lparr>document_contents := dict_set file_name text_content (document_contents s),
                 document_metadata :=
                   dict_set file_name
                     \<lparr>type = content_type,
                      size_chars = length text_content,
                      gcs_path = gs_uri bucket_name blob_name,
                      processed_at = utcnow_isoformat w blob_name @ ''Z''\<rparr>
                     (document_metadata s)\<rparr>
          else s)"

text \<open>
  The listing is outside the \<open>try\<close>: an exception there leaves the method. Otherwise
  the new state of the assistant and the returned total.
\<close>

definition load_documents_from_gcs ::
  "backends \<Rightarrow> string \<Rightarrow> assistant \<Rightarrow> error + assistant \<times> nat" where
  "load_documents_from_gcs w bucket_name s =
     (case list_blobs w bucket_name ''extracted/'' of
        Inl m \<Rightarrow> Inl (Exception m)
      | Inr blobs \<Rightarrow>
          (let s' = foldl (process_blob w bucket_name) s blobs;
               total_loaded = length (document_contents s')
           in Inr (s', total_loaded)))"

subsection \<open>create_context_from_documents\<close>

record candidate =
  name :: string
  content :: string
  score :: nat
  doc_type :: string

text \<open>
  The scoring loop over \<open>document_contents.items()\<close>. \<open>query_terms\<close> is the set of the
  terms, given as a list without repetition; the sum counts its members that occur in
  the lower-cased text.
\<close>

definition term_score :: "string list \<Rightarrow> string \<Rightarrow> nat" where
  "term_score query_terms content_lower =
     sum_list (map (\<lambda>term. 1) (filter (\<lambda>term. str_in term content_lower) query_terms))"

fun score_documents ::
  "string list \<Rightarrow> (string \<times> metadata) list \<Rightarrow> (string \<times> string) list \<Rightarrow> error + candidate list"
where
  "score_documents query_terms md [] = Inr []"
| "score_documents query_terms md ((doc_name, doc_content) # rest) =
     (let content_lower = str_lower doc_content;
          doc_score = term_score query_terms content_lower
      in if doc_score > 0
         then (case dict_get md doc_name of
                 Inl e \<Rightarrow> Inl e
               | Inr m \<Rightarrow>
                   (case score_documents query_terms md rest of
                      Inl e \<Rightarrow> Inl e
                    | Inr ranked \<Rightarrow>
                        Inr (\<lparr>name = doc_name, content = doc_content, score = doc_score,
                              doc_type = type m\<rparr> # ranked)))
         else score_documents query_terms md rest)"

text \<open>The fallback list comprehension over the sample.\<close>

fun fallback_documents ::
  "(string \<times> metadata) list \<Rightarrow> (string \<times> string) list \<Rightarrow> error + candidate list"
where
  "fallback_documents md [] = Inr []"
| "fallback_documents md ((n, c) # rest) =
     (case dict_get md n of
        Inl e \<Rightarrow> Inl e
      | Inr m \<Rightarrow>
          (case fallback_documents md rest of
             Inl e \<Rightarrow> Inl e
           | Inr ranked \<Rightarrow>
               Inr (\<lparr>name = n, content = c, score = 0, doc_type = type m\<rparr> # ranked)))"

text \<open>
  \<open>ranked.sort(key=..., reverse=True)\<close>: the list is reversed, sorted by a stable sort
  with ascending keys, and reversed again.
\<close>

definition sort_reverse :: "('a \<Rightarrow> nat) \<Rightarrow> 'a list \<Rightarrow> 'a list" where
  "sort_reverse key xs = rev (sort_key key (rev xs))"

definition query_terms_of :: "string \<Rightarrow> string list" where
  "query_terms_of query = remdups (str_split (str_lower query))"

text \<open>The candidates in the order in which the context is built, for a corpus that is not empty.\<close>

definition rank_documents :: "string \<Rightarrow> assistant \<Rightarrow> error + candidate list" where
  "rank_documents query s =
     (case score_documents (query_terms_of query) (document_metadata s) (document_contents s) of
        Inl e \<Rightarrow> Inl e
      | Inr ranked \<Rightarrow>
          (case (if ranked = []
                 then fallback_documents (document_metadata s) (take 2 (document_contents s))
                 else Inr ranked) of
             Inl e \<Rightarrow> Inl e
           | Inr ranked' \<Rightarrow> Inr (sort_reverse score ranked')))"

definition header_of :: "candidate \<Rightarrow> string" where
  "header_of doc = ''=== '' @ name doc @ '' ('' @ doc_type doc @ '') ==='' @ [NL]"

text \<open>The loop that appends the entries, with its two variables; \<open>break\<close> returns the context.\<close>

fun append_documents :: "int \<Rightarrow> string \<Rightarrow> int \<Rightarrow> candidate list \<Rightarrow> string" where
  "append_documents max_context_len context current_len [] = context"
| "append_documents max_context_len context current_len (doc # rest) =
     (let header = header_of doc;
          remaining = max_context_len - current_len - int (length header) - 100
      in if remaining \<le> 0 then context
         else (let snippet = take (nat remaining) (content doc);
                   context' = context @ header @ snippet @ [NL, NL]
               in append_documents max_context_len context' (int (length context')) rest))"

definition preamble :: string where
  "preamble = ''DOCUMENT CONTENTS:'' @ [NL, NL]"

definition create_context_from_documents :: "string \<Rightarrow> int \<Rightarrow> assistant \<Rightarrow> error + string" where
  "create_context_from_documents query max_context_len s =
     (if document_contents s = [] then Inr ''No documents loaded.''
      else (case rank_documents query s of
              Inl e \<Rightarrow> Inl e
            | Inr ranked \<Rightarrow>
                Inr (append_documents max_context_len preamble (int (length preamble)) ranked)))"

subsection \<open>ask_question, get_document_summary, list_documents, search_documents\<close>

text \<open>
  The language model is a parameter: \<open>model prompt\<close> is \<open>Inr\<close> the text of the response,
  or \<open>Inl\<close> the text of the exception raised by the call. A key that a shorter result
  dictionary does not have is \<open>None\<close>. These four methods read the two stores and assign
  neither.
\<close>

record reply =
  answer :: string
  sources :: "string list"
  confidence :: string
  context_length :: "nat option"
  documents_used :: "nat option"

definition question_prompt :: "string \<Rightarrow> string \<Rightarrow> string" where
  "question_prompt question context =
     ''You are an AI assistant that answers questions strictly using the'' @ [NL] @
     ''documents provided in the CONTEXT section below. Do NOT hallucinate.'' @ [NL] @
     ''If the answer can'' @ [CHR 0x27] @ ''t be found, explicitly say so and cite the relevant documents.'' @ [NL] @
     [NL] @
     ''QUESTION: '' @ question @ [NL] @
     [NL] @
     ''CONTEXT:'' @ [NL] @
     context @ [NL] @
     [NL] @
     ''ANSWER:''"

definition ask_question ::
  "(string \<Rightarrow> string + string) \<Rightarrow> string \<Rightarrow> assistant \<Rightarrow> error + reply" where
  "ask_question model question s =
     (if document_contents s = []
      then Inr \<lparr>answer = ''No documents are loaded. Please load documents first.'',
                sources = [], confidence = ''low'',
                context_length = None, documents_used = None\<rparr>
      else (case create_context_from_documents question 8000 s of
              Inl e \<Rightarrow> Inl e
            | Inr context \<Rightarrow>
                (case model (question_prompt question context) of
                   Inr response_text \<Rightarrow>
                     (let answer_text = str_strip response_text;
                          srcs = map fst (document_contents s)
                      in Inr \<lparr>answer = answer_text, sources = srcs, confidence = ''high'',
                               context_length = Some (length context),
                               documents_used = Some (length srcs)\<rparr>)
                 | Inl exc \<Rightarrow>
                     Inr \<lparr>answer = ''Error generating response: '' @ exc,
                          sources = [], confidence = ''error'',
                          context_length = None, documents_used = None\<rparr>)))"

record summary_reply =
  summary :: string
  document_count :: "nat option"
  total_chars :: "nat option"
  document_types :: "string set option"

text \<open>The hyphen and the bullets of this prompt are not ASCII; they stand here as their UTF-8 bytes.\<close>

definition summary_prompt :: "string \<Rightarrow> string" where
  "summary_prompt summary_context =
     ''Please provide a concise, bullet'' @ [CHR 0xE2, CHR 0x80, CHR 0x91] @
     ''point summary of the following'' @ [NL] @
     ''documents. Include for each document:'' @ [NL] @
     [CHR 0xE2, CHR 0x80, CHR 0xA2] @ '' Title / file name'' @ [NL] @
     [CHR 0xE2, CHR 0x80, CHR 0xA2] @ '' Main topics covered'' @ [NL] @
     [CHR 0xE2, CHR 0x80, CHR 0xA2] @ '' Any especially important fact or figure'' @ [NL] @
     [NL] @
     ''CONTENTS:'' @ [NL] @
     summary_context @ [NL] @
     [NL] @
     ''SUMMARY:''"

definition get_document_summary ::
  "(string \<Rightarrow> string + string) \<Rightarrow> assistant \<Rightarrow> error + summary_reply" where
  "get_document_summary model s =
     (if document_contents s = []
      then Inr \<lparr>summary = ''No documents loaded'', document_count = None,
                total_chars = None, document_types = None\<rparr>
      else (case create_context_from_documents ''summary overview'' 12000 s of
              Inl e \<Rightarrow> Inl e
            | Inr summary_context \<Rightarrow>
                (case model (summary_prompt summary_context) of
                   Inr response_text \<Rightarrow>
                     Inr \<lparr>summary = str_strip response_text,
                          document_count = Some (length (document_contents s)),
                          total_chars =
                            Some (sum_list (map (\<lambda>(n, c). length c) (document_contents s))),
                          document_types =
                            Some (set (map (\<lambda>(n, m). type m) (document_metadata s)))\<rparr>
                 | Inl exc \<Rightarrow>
                     Inr \<lparr>summary = ''Error generating summary: '' @ exc,
                          document_count = None, total_chars = None,
                          document_types = None\<rparr>)))"

text \<open>An entry of the listing is the name with the four fields of the metadata.\<close>

definition list_documents :: "assistant \<Rightarrow> (string \<times> metadata) list" where
  "list_documents s = map (\<lambda>(n, meta). (n, meta)) (document_metadata s)"

record hit =
  document :: string
  hit_type :: string
  snippet :: string
  position :: int

text \<open>\<open>s[i:j]\<close> for \<open>0 \<le> i\<close> and \<open>0 \<le> j\<close>, the only slices that the search takes.\<close>

definition slice :: "int \<Rightarrow> int \<Rightarrow> string \<Rightarrow> string" where
  "slice i j s = take (nat j - nat i) (drop (nat i) s)"

fun search_loop ::
  "string \<Rightarrow> (string \<times> metadata) list \<Rightarrow> (string \<times> string) list \<Rightarrow> error + hit list" where
  "search_loop trm md [] = Inr []"
| "search_loop trm md ((doc_name, doc_content) # rest) =
     (let term_lc = str_lower trm;
          content_lc = str_lower doc_content;
          idx = str_find content_lc term_lc
      in if idx \<noteq> - 1
         then (case dict_get md doc_name of
                 Inl e \<Rightarrow> Inl e
               | Inr m \<Rightarrow>
                   (let start = max 0 (idx - 120);
                        stop = min (int (length doc_content)) (idx + int (length trm) + 120)
                    in case search_loop trm md rest of
                         Inl e \<Rightarrow> Inl e
                       | Inr hits \<Rightarrow>
                           Inr (\<lparr>document = doc_name, hit_type = type m,
                                 snippet = slice start stop doc_content,
                                 position = idx\<rparr> # hits)))
         else search_loop trm md rest)"

definition search_documents :: "string \<Rightarrow> assistant \<Rightarrow> error + hit list" where
  "search_documents trm s = search_loop trm (document_metadata s) (document_contents s)"

subsection \<open>Sequences of calls\<close>

text \<open>
  A call of a public method, with the services it meets. A call that raises leaves the
  stores as they were.
\<close>

datatype call =
    Load backends string
  | Ask "string \<Rightarrow> string + string" string
  | Summary "string \<Rightarrow> string + string"
  | ListDocuments
  | Search string

fun run_call :: "assistant \<Rightarrow> call \<Rightarrow> assistant" where
  "run_call s (Load w bucket_name) =
     (case load_documents_from_gcs w bucket_name s of Inl e \<Rightarrow> s | Inr (s', n) \<Rightarrow> s')"
| "run_call s (Ask model question) = s"
| "run_call s (Summary model) = s"
| "run_call s ListDocuments = s"
| "run_call s (Search trm) = s"

definition run_calls :: "call list \<Rightarrow> assistant" where
  "run_calls calls = foldl run_call init calls"

section \<open>Vocabulary of the properties\<close>

text \<open>
  The invariant of the two stores: the keys are distinct, they are the same in both stores
  and in the same order, every stored text is not empty after trimming, and the metadata
  under its key records its length.
\<close>

definition corpus_inv :: "assistant \<Rightarrow> bool" where
  "corpus_inv s \<longleftrightarrow>
     distinct (map fst (document_contents s)) \<and>
     map fst (document_contents s) = map fst (document_metadata s) \<and>
     (\<forall>(k, t) \<in> set (document_contents s).
        str_strip t \<noteq> [] \<and>
        (case map_of (document_metadata s) k of
           None \<Rightarrow> False
         | Some m \<Rightarrow> size_chars m = length t))"

text \<open>
  The number of distinct terms of a query that occur in a text, both lower-cased; the
  candidate that stands for an entry of the corpus with a given score; the candidates with a
  positive number of matches, in corpus order.
\<close>

definition matches :: "string \<Rightarrow> string \<Rightarrow> nat" where
  "matches query doc_text =
     card {t \<in> set (str_split (str_lower query)). sublist t (str_lower doc_text)}"

definition candidate_for :: "assistant \<Rightarrow> nat \<Rightarrow> string \<times> string \<Rightarrow> candidate" where
  "candidate_for s k item =
     \<lparr>name = fst item, content = snd item, score = k,
      doc_type = (case map_of (document_metadata s) (fst item) of
                    None \<Rightarrow> [] | Some m \<Rightarrow> type m)\<rparr>"

definition scored :: "string \<Rightarrow> assistant \<Rightarrow> candidate list" where
  "scored query s =
     map (\<lambda>item. candidate_for s (matches query (snd item)) item)
         (filter (\<lambda>item. 0 < matches query (snd item)) (document_contents s))"

text \<open>
  An entry of the context is a candidate with its snippet. \<open>remaining_for m before doc\<close> is
  the budget left for the snippet of \<open>doc\<close> when the context so far is \<open>before\<close>. A list
  of entries after \<open>ctx\<close> respects the budget \<open>m\<close> when, for each entry, the budget left
  after the context and the entries before it is positive and the snippet is the text cut
  to it.
\<close>

definition entry_text :: "candidate \<times> string \<Rightarrow> string" where
  "entry_text e = header_of (fst e) @ snd e @ [NL, NL]"

definition remaining_for :: "int \<Rightarrow> string \<Rightarrow> candidate \<Rightarrow> int" where
  "remaining_for m before doc = m - int (length before) - int (length (header_of doc)) - 100"

definition budgeted_entries :: "int \<Rightarrow> string \<Rightarrow> (candidate \<times> string) list \<Rightarrow> bool" where
  "budgeted_entries m ctx es \<longleftrightarrow>
     (\<forall>i < length es.
        let before = ctx @ concat (map entry_text (take i es));
            remaining = remaining_for m before (fst (es ! i))
        in 0 < remaining \<and> snd (es ! i) = take (nat remaining) (content (fst (es ! i))))"

text \<open>
  An object is stored by a run when its extraction returns a text that is not empty after
  trimming; \<open>commit_of\<close> is then the key, the text and the metadata written.
  \<open>dict_set_all\<close> is a sequence of assignments to a dictionary.
\<close>

definition committed :: "backends \<Rightarrow> string \<Rightarrow> string \<Rightarrow> bool" where
  "committed w bucket_name blob_name \<longleftrightarrow>
     (case extract_text w bucket_name blob_name of
        Inl e \<Rightarrow> False
      | Inr (t, ct) \<Rightarrow> str_strip t \<noteq> [])"

definition commit_of :: "backends \<Rightarrow> string \<Rightarrow> string \<Rightarrow> (string \<times> string \<times> metadata) option" where
  "commit_of w bucket_name blob_name =
     (case extract_text w bucket_name blob_name of
        Inl e \<Rightarrow> None
      | Inr (t, ct) \<Rightarrow>
          if str_strip t \<noteq> []
          then Some (basename blob_name, t,
                     \<lparr>type = ct, size_chars = length t,
                      gcs_path = gs_uri bucket_name blob_name,
                      processed_at = utcnow_isoformat w blob_name @ ''Z''\<rparr>)
          else None)"

definition dict_set_all :: "('k \<times> 'v) list \<Rightarrow> ('k \<times> 'v) list \<Rightarrow> ('k \<times> 'v) list" where
  "dict_set_all ops d = fold (\<lambda>p. dict_set (fst p) (snd p)) ops d"

text \<open>The metadata, and the assistant, with the time of processing blanked.\<close>

definition strip_time :: "metadata \<Rightarrow> metadata" where
  "strip_time m = m\<lparr>processed_at := []\<rparr>"

definition without_times :: "assistant \<Rightarrow> assistant" where
  "without_times s =
     s\<lparr>document_metadata := map (\<lambda>p. (fst p, strip_time (snd p))) (document_metadata s)\<rparr>"

section \<open>Example corpora and buckets\<close>

text \<open>
  Two corpora of two documents, and a bucket of three objects: a plain text, a blank plain
  text, and a PDF whose download fails. Its speech and video services fail. The same
  bucket is read again a day later, and once without the PDF in the listing;
  \<open>loaded_first\<close> and \<open>loaded_second\<close> are the assistant after the first run and after the
  later one.
\<close>

definition corpus_A :: assistant where
  "corpus_A =
     \<lparr>document_contents =
        [(''a.txt'', ''The quick brown fox''), (''b.txt'', ''Lazy dogs sleep'')],
      document_metadata =
        [(''a.txt'', \<lparr>type = ''Plain Text'', size_chars = 19,
                      gcs_path = ''gs://docs/extracted/a.txt'',
                      processed_at = ''2025-01-01T00:00:00Z''\<rparr>),
         (''b.txt'', \<lparr>type = ''Plain Text'', size_chars = 15,
                      gcs_path = ''gs://docs/extracted/b.txt'',
                      processed_at = ''2025-01-01T00:00:01Z''\<rparr>)]\<rparr>"

definition corpus_B :: assistant where
  "corpus_B =
     \<lparr>document_contents =
        [(''d1.txt'', ''alpha only''), (''d2.txt'', ''Alpha and Beta'')],
      document_metadata =
        [(''d1.txt'', \<lparr>type = ''Plain Text'', size_chars = 10,
                       gcs_path = ''gs://docs/extracted/d1.txt'',
                       processed_at = ''2025-01-01T00:00:00Z''\<rparr>),
         (''d2.txt'', \<lparr>type = ''PDF Document'', size_chars = 14,
                       gcs_path = ''gs://docs/extracted/d2.pdf'',
                       processed_at = ''2025-01-01T00:00:01Z''\<rparr>)]\<rparr>"

definition bucket_world :: backends where
  "bucket_world =
     \<lparr>list_blobs = (\<lambda>bucket prefix.
        Inr [''extracted/a.txt'', ''extracted/blank.txt'', ''extracted/broken.pdf'']),
      download_to_filename = (\<lambda>bucket blob_name.
        if blob_name = ''extracted/broken.pdf'' then Inl ''404 not found'' else Inr blob_name),
      recognize = (\<lambda>encoding uri. Inl ''quota exceeded''),
      annotate_video = (\<lambda>uri. Inl ''timeout''),
      pdf_extract_text = (\<lambda>local_path. Inr ''never read''),
      docx_paragraphs = (\<lambda>local_path. Inr []),
      pptx_shapes = (\<lambda>local_path. Inr []),
      read_utf8 = (\<lambda>local_path.
        if local_path = ''extracted/a.txt'' then Inr ''The quick brown fox '' else Inr ''  ''),
      utcnow_isoformat = (\<lambda>blob_name. ''2025-01-01T00:00:00'')\<rparr>"

definition bucket_world_later :: backends where
  "bucket_world_later = bucket_world\<lparr>utcnow_isoformat := (\<lambda>blob_name. ''2025-01-02T00:00:00'')\<rparr>"

definition bucket_world_short :: backends where
  "bucket_world_short =
     bucket_world\<lparr>list_blobs := (\<lambda>bucket prefix. Inr ([''extracted/a.txt'', ''extracted/blank.txt''] @ []))\<rparr>"

definition loaded_first :: assistant where
  "loaded_first =
     \<lparr>document_contents = [(''a.txt'', ''The quick brown fox'')],
      document_metadata =
        [(''a.txt'', \<lparr>type = ''Plain Text'', size_chars = 19,
                      gcs_path = ''gs://docs/extracted/a.txt'',
                      processed_at = ''2025-01-01T00:00:00Z''\<rparr>)]\<rparr>"

definition loaded_second :: assistant where
  "loaded_second =
     \<lparr>document_contents = [(''a.txt'', ''The quick brown fox'')],
      document_metadata =
        [(''a.txt'', \<lparr>type = ''Plain Text'', size_chars = 19,
                      gcs_path = ''gs://docs/extracted/a.txt'',
                      processed_at = ''2025-01-02T00:00:00Z''\<rparr>)]\<rparr>"

section \<open>Properties\<close>

subsection \<open>Dictionaries and the invariant of the stores\<close>

lemma dict_set_update: "dict_set k v d = AList.update k v d"
  by (induction d) auto

lemma dict_set_keys:
  "map fst (dict_set k v d) = (if k \<in> set (map fst d) then map fst d else map fst d @ [k])"
  by (simp add: dict_set_update update_keys)

lemma dict_set_distinct: "distinct (map fst d) \<Longrightarrow> distinct (map fst (dict_set k v d))"
  by (simp add: dict_set_update distinct_update)

lemma dict_set_map_of: "map_of (dict_set k v d) = (map_of d)(k \<mapsto> v)"
  by (simp add: dict_set_update update_conv')

lemma dict_set_mem:
  assumes "distinct (map fst d)"
  shows "(k', v') \<in> set (dict_set k v d) \<longleftrightarrow> (if k' = k then v' = v else (k', v') \<in> set d)"
proof -
  have "(k', v') \<in> set (dict_set k v d) \<longleftrightarrow> map_of (dict_set k v d) k' = Some v'"
    using dict_set_distinct [OF assms, of k v] by simp
  also have "\<dots> \<longleftrightarrow> (if k' = k then v' = v else map_of d k' = Some v')"
    by (auto simp: dict_set_map_of)
  also have "\<dots> \<longleftrightarrow> (if k' = k then v' = v else (k', v') \<in> set d)"
    using assms by simp
  finally show ?thesis .
qed

lemma corpus_inv_commit:
  assumes "corpus_inv s" and "str_strip t \<noteq> []" and "size_chars m = length t"
  shows "corpus_inv (s\<lparr>document_contents := dict_set k t (document_contents s),
                        document_metadata := dict_set k m (document_metadata s)\<rparr>)"
proof -
  from assms(1) have d: "distinct (map fst (document_contents s))"
    and e: "map fst (document_contents s) = map fst (document_metadata s)"
    and p: "\<And>k' t'. (k', t') \<in> set (document_contents s) \<Longrightarrow>
              str_strip t' \<noteq> [] \<and>
              (case map_of (document_metadata s) k' of None \<Rightarrow> False
               | Some m' \<Rightarrow> size_chars m' = length t')"
    by (auto simp: corpus_inv_def)
  have "\<And>k' t'. (k', t') \<in> set (dict_set k t (document_contents s)) \<Longrightarrow>
           str_strip t' \<noteq> [] \<and>
           (case map_of (dict_set k m (document_metadata s)) k' of None \<Rightarrow> False
            | Some m' \<Rightarrow> size_chars m' = length t')"
    using p assms(2,3) by (auto simp: dict_set_mem [OF d] dict_set_map_of split: if_splits)
  then show ?thesis
    using d e by (auto simp: corpus_inv_def dict_set_distinct dict_set_keys)
qed

lemma corpus_inv_process_blob:
  "corpus_inv s \<Longrightarrow> corpus_inv (process_blob w b s blob)"
  by (auto simp: process_blob_def Let_def corpus_inv_commit split: sum.splits prod.splits)

lemma corpus_inv_foldl:
  "corpus_inv s \<Longrightarrow> corpus_inv (foldl (process_blob w b) s blobs)"
  by (induction blobs arbitrary: s) (simp_all add: corpus_inv_process_blob)

lemma corpus_inv_init: "corpus_inv init"
  by (simp add: corpus_inv_def init_def)

lemma corpus_inv_run_call: "corpus_inv s \<Longrightarrow> corpus_inv (run_call s c)"
  by (cases c) (auto simp: load_documents_from_gcs_def Let_def corpus_inv_foldl split: sum.splits)

lemma corpus_inv_foldl_calls: "corpus_inv s \<Longrightarrow> corpus_inv (foldl run_call s calls)"
  by (induction calls arbitrary: s) (simp_all add: corpus_inv_run_call)

lemma corpus_inv_dict_get:
  assumes "corpus_inv s" and "(k, t) \<in> set (document_contents s)"
  shows "\<exists>m. dict_get (document_metadata s) k = Inr m \<and> map_of (document_metadata s) k = Some m \<and> size_chars m = length t"
  using assms by (fastforce simp: corpus_inv_def dict_get_def split: option.splits)

subsection \<open>Scoring and ranking\<close>

lemma str_in_sublist: "str_in t s \<longleftrightarrow> sublist t s"
  by (induction s) (simp_all add: sublist_Cons_right)

lemma term_score_matches: "term_score (query_terms_of q) (str_lower c) = matches q c"
proof -
  have "term_score (query_terms_of q) (str_lower c) =
        length (filter (\<lambda>t. sublist t (str_lower c)) (query_terms_of q))"
    by (simp add: term_score_def str_in_sublist sum_list_triv)
  also have "\<dots> = card ({t. sublist t (str_lower c)} \<inter> set (query_terms_of q))"
    by (rule distinct_length_filter) (simp add: query_terms_of_def)
  also have "{t. sublist t (str_lower c)} \<inter> set (query_terms_of q) =
             {t \<in> set (str_split (str_lower q)). sublist t (str_lower c)}"
    by (auto simp: query_terms_of_def)
  finally show ?thesis by (simp add: matches_def)
qed

lemma score_documents_scored_aux:
  assumes "\<forall>item \<in> set items. map_of md (fst item) \<noteq> None"
  shows "score_documents (query_terms_of q) md items =
         Inr (map (\<lambda>item. \<lparr>name = fst item, content = snd item, score = matches q (snd item),
                      doc_type = (case map_of md (fst item) of None \<Rightarrow> [] | Some m \<Rightarrow> type m)\<rparr>)
                  (filter (\<lambda>item. 0 < matches q (snd item)) items))"
  using assms
proof (induction items)
  case Nil
  then show ?case by simp
next
  case (Cons item items)
  obtain n c where item: "item = (n, c)" by (cases item)
  from Cons.prems obtain m where m: "map_of md n = Some m" by (auto simp: item)
  from Cons have IH: "score_documents (query_terms_of q) md items =
         Inr (map (\<lambda>item. \<lparr>name = fst item, content = snd item, score = matches q (snd item),
                      doc_type = (case map_of md (fst item) of None \<Rightarrow> [] | Some m \<Rightarrow> type m)\<rparr>)
                  (filter (\<lambda>item. 0 < matches q (snd item)) items))"
    by simp
  show ?case
    by (simp add: item Let_def term_score_matches dict_get_def m IH)
qed

lemma corpus_inv_keys:
  assumes "corpus_inv s" and "item \<in> set (document_contents s)"
  shows "map_of (document_metadata s) (fst item) \<noteq> None"
  using assms by (cases item) (auto simp: corpus_inv_def split: option.splits)

lemma score_documents_scored:
  assumes "corpus_inv s"
  shows "score_documents (query_terms_of q) (document_metadata s) (document_contents s) =
         Inr (scored q s)"
  unfolding scored_def candidate_for_def
  by (rule score_documents_scored_aux) (simp add: corpus_inv_keys [OF assms])

lemma fallback_documents_aux:
  assumes "\<forall>item \<in> set items. map_of md (fst item) \<noteq> None"
  shows "fallback_documents md items =
         Inr (map (\<lambda>item. \<lparr>name = fst item, content = snd item, score = 0,
                      doc_type = (case map_of md (fst item) of None \<Rightarrow> [] | Some m \<Rightarrow> type m)\<rparr>)
                  items)"
  using assms
proof (induction items)
  case Nil
  then show ?case by simp
next
  case (Cons item items)
  obtain n c where item: "item = (n, c)" by (cases item)
  from Cons.prems obtain m where m: "map_of md n = Some m" by (auto simp: item)
  with Cons show ?case by (simp add: item dict_get_def)
qed

lemma fallback_documents_sample:
  assumes "corpus_inv s"
  shows "fallback_documents (document_metadata s) (take 2 (document_contents s)) =
         Inr (map (candidate_for s 0) (take 2 (document_contents s)))"
proof -
  have "\<forall>item \<in> set (take 2 (document_contents s)). map_of (document_metadata s) (fst item) \<noteq> None"
    using corpus_inv_keys [OF assms] by (auto dest: in_set_takeD)
  from fallback_documents_aux [OF this] show ?thesis
    by (simp add: candidate_for_def [abs_def])
qed

lemma sort_reverse_mset: "mset (sort_reverse key xs) = mset xs"
  by (simp add: sort_reverse_def)

lemma sort_reverse_sorted: "sorted_wrt (\<lambda>x y. key y \<le> key x) (sort_reverse key xs)"
proof -
  have "sorted (map key (sort_key key (rev xs)))" by simp
  then have "sorted_wrt (\<lambda>x y. key x \<le> key y) (sort_key key (rev xs))"
    by (simp add: sorted_map)
  then show ?thesis
    by (simp add: sort_reverse_def sorted_wrt_rev)
qed

lemma sort_reverse_stable:
  "filter (\<lambda>x. key x = k) (sort_reverse key xs) = filter (\<lambda>x. key x = k) xs"
proof -
  have "filter (\<lambda>x. key x = k) (sort_reverse key xs) =
        rev (filter (\<lambda>x. key x = k) (sort_key key (rev xs)))"
    by (simp add: sort_reverse_def rev_filter)
  also have "\<dots> = rev (filter (\<lambda>x. key x = k) (rev xs))"
    by (simp only: sort_key_stable)
  finally show ?thesis by (simp add: rev_filter)
qed

lemma sort_reverse_const:
  assumes "\<forall>x \<in> set xs. key x = k"
  shows "sort_reverse key xs = xs"
proof -
  have "filter (\<lambda>x. key x = k) (sort_reverse key xs) = sort_reverse key xs"
    using assms by (simp add: sort_reverse_def)
  moreover have "filter (\<lambda>x. key x = k) xs = xs"
    using assms by simp
  ultimately show ?thesis
    using sort_reverse_stable [of key k xs] by simp
qed

lemma sort_reverse_before:
  assumes "x \<in> set xs" and "y \<in> set xs" and "key y < key x"
  shows "\<exists>i j. i < j \<and> j < length (sort_reverse key xs) \<and>
               sort_reverse key xs ! i = x \<and> sort_reverse key xs ! j = y"
proof -
  let ?r = "sort_reverse key xs"
  have "set ?r = set xs" by (simp add: sort_reverse_def)
  with assms obtain i j where i: "i < length ?r" "?r ! i = x" and j: "j < length ?r" "?r ! j = y"
    by (metis in_set_conv_nth)
  have "\<not> j < i"
  proof
    assume "j < i"
    with sort_reverse_sorted [of key xs] i(1) have "key (?r ! i) \<le> key (?r ! j)"
      by (simp add: sorted_wrt_iff_nth_less)
    with i j assms(3) show False by simp
  qed
  moreover have "i \<noteq> j" using i j assms(3) by auto
  ultimately have "i < j" by simp
  with i j show ?thesis by blast
qed

lemma rank_documents_scored:
  assumes "corpus_inv s"
  shows "rank_documents q s =
         Inr (sort_reverse score
               (if scored q s = [] then map (candidate_for s 0) (take 2 (document_contents s))
                else scored q s))"
  by (simp add: rank_documents_def score_documents_scored [OF assms]
        fallback_documents_sample [OF assms])

subsection \<open>Assembling the context\<close>

lemma budgeted_entries_Cons:
  "budgeted_entries m ctx (e # es) \<longleftrightarrow>
     0 < remaining_for m ctx (fst e) \<and>
     snd e = take (nat (remaining_for m ctx (fst e))) (content (fst e)) \<and>
     budgeted_entries m (ctx @ entry_text e) es"
proof -
  have split: "\<And>P n. (\<forall>i < Suc n. P i) \<longleftrightarrow> P 0 \<and> (\<forall>i < n. P (Suc i))"
    by (auto simp: less_Suc_eq_0_disj)
  show ?thesis
    by (simp add: budgeted_entries_def Let_def split)
qed

lemma append_documents_entries:
  "\<exists>es. append_documents m ctx (int (length ctx)) docs = ctx @ concat (map entry_text es) \<and>
        prefix (map fst es) docs \<and> budgeted_entries m ctx es \<and>
        (length es < length docs \<longrightarrow>
           remaining_for m (ctx @ concat (map entry_text es)) (docs ! length es) \<le> 0)"
proof (induction docs arbitrary: ctx)
  case Nil
  have "append_documents m ctx (int (length ctx)) [] = ctx @ concat (map entry_text []) \<and>
        prefix (map fst ([] :: (candidate \<times> string) list)) [] \<and> budgeted_entries m ctx []"
    by (simp add: budgeted_entries_def)
  then show ?case by (intro exI [of _ "[]"]) simp
next
  case (Cons doc docs)
  let ?r = "remaining_for m ctx doc"
  show ?case
  proof (cases "?r \<le> 0")
    case True
    then have "append_documents m ctx (int (length ctx)) (doc # docs) = ctx"
      by (simp add: remaining_for_def Let_def)
    with True show ?thesis
      by (intro exI [of _ "[]"]) (simp add: budgeted_entries_def)
  next
    case False
    let ?e = "(doc, take (nat ?r) (content doc))"
    let ?ctx' = "ctx @ entry_text ?e"
    from Cons.IH [of ?ctx'] obtain es where
      es: "append_documents m ?ctx' (int (length ?ctx')) docs = ?ctx' @ concat (map entry_text es)"
        "prefix (map fst es) docs" "budgeted_entries m ?ctx' es"
        "length es < length docs \<longrightarrow>
           remaining_for m (?ctx' @ concat (map entry_text es)) (docs ! length es) \<le> 0"
      by blast
    have "append_documents m ctx (int (length ctx)) (doc # docs) =
          append_documents m ?ctx' (int (length ?ctx')) docs"
      using False by (simp add: remaining_for_def Let_def entry_text_def)
    with es False show ?thesis
      by (intro exI [of _ "?e # es"]) (simp add: budgeted_entries_Cons)
  qed
qed

lemma append_documents_length:
  "int (length (append_documents m ctx (int (length ctx)) docs)) \<le> max (int (length ctx)) (m - 98)"
proof (induction docs arbitrary: ctx)
  case Nil
  then show ?case by simp
next
  case (Cons doc docs)
  let ?r = "m - int (length ctx) - int (length (header_of doc)) - 100"
  show ?case
  proof (cases "?r \<le> 0")
    case True
    then show ?thesis by (simp add: Let_def)
  next
    case False
    let ?ctx' = "ctx @ header_of doc @ take (nat ?r) (content doc) @ [NL, NL]"
    have len: "int (length ?ctx') \<le> m - 98"
      using False by simp
    have "int (length (append_documents m ctx (int (length ctx)) (doc # docs))) =
          int (length (append_documents m ?ctx' (int (length ?ctx')) docs))"
      using False by (simp add: Let_def)
    also have "\<dots> \<le> max (int (length ?ctx')) (m - 98)"
      by (rule Cons.IH)
    also have "\<dots> \<le> max (int (length ctx)) (m - 98)"
      using len by simp
    finally show ?thesis .
  qed
qed

subsection \<open>Runs of the loader as sequences of assignments\<close>

lemma process_blob_commit_of:
  "process_blob w b s blob =
     (case commit_of w b blob of
        None \<Rightarrow> s
      | Some c \<Rightarrow> s\<lparr>document_contents := dict_set (fst c) (fst (snd c)) (document_contents s),
                     document_metadata := dict_set (fst c) (snd (snd c)) (document_metadata s)\<rparr>)"
  by (simp add: process_blob_def commit_of_def Let_def split: sum.splits prod.splits)

lemma foldl_process_blob_contents:
  "document_contents (foldl (process_blob w b) s blobs) =
     dict_set_all (map (\<lambda>c. (fst c, fst (snd c))) (List.map_filter (commit_of w b) blobs))
       (document_contents s)"
  by (induction blobs arbitrary: s)
     (simp_all add: dict_set_all_def map_filter_simps process_blob_commit_of split: option.splits)

lemma foldl_process_blob_metadata:
  "document_metadata (foldl (process_blob w b) s blobs) =
     dict_set_all (map (\<lambda>c. (fst c, snd (snd c))) (List.map_filter (commit_of w b) blobs))
       (document_metadata s)"
  by (induction blobs arbitrary: s)
     (simp_all add: dict_set_all_def map_filter_simps process_blob_commit_of split: option.splits)

lemma dict_set_all_Cons: "dict_set_all (p # ops) d = dict_set_all ops (dict_set (fst p) (snd p) d)"
  by (simp add: dict_set_all_def)

lemma dict_set_all_map_of: "map_of (dict_set_all ops d) = map_of d ++ map_of (rev ops)"
proof (induction ops arbitrary: d)
  case Nil
  then show ?case by (simp add: dict_set_all_def)
next
  case (Cons p ops)
  obtain k v where p: "p = (k, v)" by (cases p)
  have "map_of (dict_set_all (p # ops) d) = map_of (dict_set k v d) ++ map_of (rev ops)"
    by (simp only: dict_set_all_Cons Cons.IH p fst_conv snd_conv)
  also have "\<dots> = (map_of d)(k \<mapsto> v) ++ map_of (rev ops)"
    by (simp only: dict_set_map_of)
  also have "\<dots> = map_of d ++ ([k \<mapsto> v] ++ map_of (rev ops))"
    by (rule ext) (simp add: map_add_def split: option.splits)
  also have "[k \<mapsto> v] ++ map_of (rev ops) = map_of (rev (p # ops))"
    by (rule ext) (simp add: p map_add_def split: option.splits)
  finally show ?case .
qed

lemma dict_set_all_keys_set:
  "fst ` set (dict_set_all ops d) = fst ` set d \<union> fst ` set ops"
proof (induction ops arbitrary: d)
  case Nil
  then show ?case by (simp add: dict_set_all_def)
next
  case (Cons p ops)
  have "fst ` set (dict_set (fst p) (snd p) d) = insert (fst p) (fst ` set d)"
    using dict_set_keys [of "fst p" "snd p" d, THEN arg_cong, of set] by auto
  then show ?case
    unfolding dict_set_all_Cons Cons.IH by auto
qed

lemma dict_set_all_keys_same:
  "set (map fst ops) \<subseteq> set (map fst d) \<Longrightarrow> map fst (dict_set_all ops d) = map fst d"
proof (induction ops arbitrary: d)
  case Nil
  then show ?case by (simp add: dict_set_all_def)
next
  case (Cons p ops)
  from Cons.prems have k: "map fst (dict_set (fst p) (snd p) d) = map fst d"
    by (simp add: dict_set_keys)
  with Cons.prems have "set (map fst ops) \<subseteq> set (map fst (dict_set (fst p) (snd p) d))"
    by simp
  from Cons.IH [OF this] k show ?case by (simp add: dict_set_all_Cons)
qed

lemma dict_set_all_distinct:
  "distinct (map fst d) \<Longrightarrow> distinct (map fst (dict_set_all ops d))"
  by (induction ops arbitrary: d) (simp_all add: dict_set_all_def dict_set_distinct)

lemma dict_eqI:
  assumes "distinct (map fst xs)" and "map fst xs = map fst ys" and "map_of xs = map_of ys"
  shows "xs = ys"
  using assms
proof (induction xs arbitrary: ys)
  case Nil
  then show ?case by simp
next
  case (Cons x xs)
  from Cons.prems(2) obtain y ys' where ys: "ys = y # ys'" and k: "fst x = fst y"
    and ks: "map fst xs = map fst ys'"
    by (cases ys) auto
  from Cons.prems(3) have "map_of (x # xs) (fst x) = map_of ys (fst x)" by (rule fun_cong)
  then have v: "snd x = snd y" by (simp add: ys k)
  have "map_of xs k' = map_of ys' k'" for k'
  proof (cases "k' = fst x")
    case True
    from Cons.prems(1) have nx: "fst x \<notin> set (map fst xs)" by simp
    with ks have ny: "fst x \<notin> set (map fst ys')" by simp
    from nx have "map_of xs (fst x) = None" by (simp add: map_of_eq_None_iff)
    moreover from ny have "map_of ys' (fst x) = None" by (simp add: map_of_eq_None_iff)
    ultimately show ?thesis using True by simp
  next
    case False
    from Cons.prems(3) have "map_of (x # xs) k' = map_of ys k'" by (rule fun_cong)
    with False k show ?thesis by (simp add: ys)
  qed
  then have "map_of xs = map_of ys'" by (rule ext)
  with Cons.IH [of ys'] Cons.prems(1) ks have "xs = ys'" by simp
  with k v ys show ?case by (simp add: prod_eq_iff)
qed

lemma dict_set_all_idem:
  assumes "distinct (map fst d)"
  shows "dict_set_all ops (dict_set_all ops d) = dict_set_all ops d"
proof (rule dict_eqI)
  show "distinct (map fst (dict_set_all ops (dict_set_all ops d)))"
    by (intro dict_set_all_distinct assms)
  show "map fst (dict_set_all ops (dict_set_all ops d)) = map fst (dict_set_all ops d)"
    by (rule dict_set_all_keys_same) (simp add: dict_set_all_keys_set)
  show "map_of (dict_set_all ops (dict_set_all ops d)) = map_of (dict_set_all ops d)"
    unfolding dict_set_all_map_of by (rule ext) (simp add: map_add_def split: option.splits)
qed

lemma map_values_dict_set:
  "map (\<lambda>p. (fst p, f (snd p))) (dict_set k v d) = dict_set k (f v) (map (\<lambda>p. (fst p, f (snd p))) d)"
  by (induction d) auto

lemma map_values_dict_set_all:
  "map (\<lambda>p. (fst p, f (snd p))) (dict_set_all ops d) =
     dict_set_all (map (\<lambda>p. (fst p, f (snd p))) ops) (map (\<lambda>p. (fst p, f (snd p))) d)"
  by (induction ops arbitrary: d) (simp_all add: dict_set_all_def map_values_dict_set)

lemma extractors_clock [simp]:
  "extract_from_audio (w\<lparr>utcnow_isoformat := clock\<rparr>) = extract_from_audio w"
  "extract_from_video (w\<lparr>utcnow_isoformat := clock\<rparr>) = extract_from_video w"
  "extract_from_pdf (w\<lparr>utcnow_isoformat := clock\<rparr>) = extract_from_pdf w"
  "extract_from_docx (w\<lparr>utcnow_isoformat := clock\<rparr>) = extract_from_docx w"
  "extract_from_pptx (w\<lparr>utcnow_isoformat := clock\<rparr>) = extract_from_pptx w"
  "extract_from_txt (w\<lparr>utcnow_isoformat := clock\<rparr>) = extract_from_txt w"
  by (simp_all add: fun_eq_iff extract_from_audio_def extract_from_video_def
        extract_from_pdf_def extract_from_docx_def extract_from_pptx_def extract_from_txt_def)

lemma extractors_listing [simp]:
  "extract_from_audio (w\<lparr>list_blobs := l\<rparr>) = extract_from_audio w"
  "extract_from_video (w\<lparr>list_blobs := l\<rparr>) = extract_from_video w"
  "extract_from_pdf (w\<lparr>list_blobs := l\<rparr>) = extract_from_pdf w"
  "extract_from_docx (w\<lparr>list_blobs := l\<rparr>) = extract_from_docx w"
  "extract_from_pptx (w\<lparr>list_blobs := l\<rparr>) = extract_from_pptx w"
  "extract_from_txt (w\<lparr>list_blobs := l\<rparr>) = extract_from_txt w"
  by (simp_all add: fun_eq_iff extract_from_audio_def extract_from_video_def
        extract_from_pdf_def extract_from_docx_def extract_from_pptx_def extract_from_txt_def)

lemma extract_text_clock [simp]:
  "extract_text (w\<lparr>utcnow_isoformat := clock\<rparr>) b blob = extract_text w b blob"
  by (simp add: extract_text_def Let_def split: sum.splits)

lemma extract_text_listing [simp]:
  "extract_text (w\<lparr>list_blobs := l\<rparr>) b blob = extract_text w b blob"
  by (simp add: extract_text_def Let_def split: sum.splits)

lemma process_blob_listing [simp]:
  "process_blob (w\<lparr>list_blobs := l\<rparr>) b s blob = process_blob w b s blob"
  by (simp add: process_blob_def Let_def split: sum.splits prod.splits)

lemma commit_of_clock_key:
  "map (\<lambda>c. (fst c, fst (snd c))) (List.map_filter (commit_of (w\<lparr>utcnow_isoformat := clock\<rparr>) b) blobs) =
   map (\<lambda>c. (fst c, fst (snd c))) (List.map_filter (commit_of w b) blobs)"
  by (induction blobs) (auto simp: map_filter_simps commit_of_def split: option.splits sum.splits prod.splits)

lemma commit_of_clock_meta:
  "map (\<lambda>p. (fst p, strip_time (snd p)))
     (map (\<lambda>c. (fst c, snd (snd c))) (List.map_filter (commit_of (w\<lparr>utcnow_isoformat := clock\<rparr>) b) blobs)) =
   map (\<lambda>p. (fst p, strip_time (snd p)))
     (map (\<lambda>c. (fst c, snd (snd c))) (List.map_filter (commit_of w b) blobs))"
  by (induction blobs)
     (auto simp: map_filter_simps commit_of_def strip_time_def split: option.splits sum.splits prod.splits)

subsection \<open>The claims on scoring, fallback and ranking\<close>

lemma corpus_inv_corpus_A: "corpus_inv corpus_A"
  by (simp add: corpus_inv_def corpus_A_def str_strip_def str_isspace_def)

lemma matches_zero_iff:
  "matches q c = 0 \<longleftrightarrow> (\<forall>t \<in> set (str_split (str_lower q)). \<not> sublist t (str_lower c))"
  by (auto simp: matches_def)

text \<open>
  Claim C2. The query terms are the set of the whitespace-separated words of the lower-cased
  query. The score of a document is the number of these terms that are substrings of its
  lower-cased text, and the candidates collected by the scoring loop are, in corpus order,
  exactly the documents whose score is positive, each with that score.
\<close>
theorem score_counts_distinct_terms:
  assumes "corpus_inv s"
  shows "set (query_terms_of q) = set (str_split (str_lower q)) \<and>
         distinct (query_terms_of q) \<and>
         score_documents (query_terms_of q) (document_metadata s) (document_contents s) =
           Inr (map (\<lambda>item. candidate_for s (matches q (snd item)) item)
                    (filter (\<lambda>item. 0 < matches q (snd item)) (document_contents s))) \<and>
         (\<forall>item \<in> set (document_contents s).
            term_score (query_terms_of q) (str_lower (snd item)) =
              card {t \<in> set (str_split (str_lower q)). sublist t (str_lower (snd item))})"
  using score_documents_scored [OF assms, of q]
  by (simp add: scored_def query_terms_of_def term_score_matches [unfolded query_terms_of_def]
        matches_def)

text \<open>On the corpus of two plain texts the query has three distinct terms; two occur in the first text, none in the second.\<close>
theorem score_counts_distinct_terms_witness:
  "corpus_inv corpus_A \<and>
   map (\<lambda>item. candidate_for corpus_A (matches ''quick FOX quick cat'' (snd item)) item)
       (filter (\<lambda>item. 0 < matches ''quick FOX quick cat'' (snd item))
          (document_contents corpus_A)) =
   [\<lparr>name = ''a.txt'', content = ''The quick brown fox'', score = 2,
     doc_type = ''Plain Text''\<rparr>]"
proof -
  have ev: "score_documents (query_terms_of ''quick FOX quick cat'')
              (document_metadata corpus_A) (document_contents corpus_A) =
            Inr [\<lparr>name = ''a.txt'', content = ''The quick brown fox'', score = 2,
                  doc_type = ''Plain Text''\<rparr>]"
    by (simp add: corpus_A_def query_terms_of_def str_split_def str_lower_def lower_char_def
          upper_to_lower_def str_isspace_def term_score_def dict_get_def)
  show ?thesis
    using score_counts_distinct_terms [OF corpus_inv_corpus_A, of "''quick FOX quick cat''"]
      corpus_inv_corpus_A
    by (simp only: ev sum.inject simp_thms)
qed

lemma scored_empty:
  assumes "\<forall>t \<in> set (str_split (str_lower q)). \<forall>item \<in> set (document_contents s).
             \<not> sublist t (str_lower (snd item))"
  shows "scored q s = []"
proof -
  have "matches q (snd item) = 0" if "item \<in> set (document_contents s)" for item
    using assms that by (simp add: matches_zero_iff)
  then show ?thesis by (simp add: scored_def filter_empty_conv)
qed

lemma preamble_not_sentinel: "preamble @ rest \<noteq> ''No documents loaded.''"
  by (simp add: preamble_def)

lemma create_context_ranked:
  assumes "rank_documents q s = Inr ranked" and "document_contents s \<noteq> []"
  shows "create_context_from_documents q m s =
         Inr (append_documents m preamble (int (length preamble)) ranked)"
  using assms by (simp add: create_context_from_documents_def)

text \<open>
  Claim C3. On a corpus that is not empty, when no query term occurs in any document, the
  candidates are the first two entries of the corpus at most, in insertion order, each with
  score 0; the context is not the text returned for an empty corpus, and it is built from at
  most two documents.
\<close>
theorem fallback_first_two:
  assumes "corpus_inv s" and "document_contents s \<noteq> []"
    and "\<forall>t \<in> set (str_split (str_lower q)). \<forall>item \<in> set (document_contents s).
           \<not> sublist t (str_lower (snd item))"
  shows "rank_documents q s = Inr (map (candidate_for s 0) (take 2 (document_contents s))) \<and>
         (\<exists>ctx es. create_context_from_documents q m s = Inr ctx \<and>
            ctx \<noteq> ''No documents loaded.'' \<and>
            ctx = preamble @ concat (map entry_text es) \<and>
            prefix (map fst es) (map (candidate_for s 0) (take 2 (document_contents s))) \<and>
            length es \<le> 2)"
proof -
  let ?sample = "map (candidate_for s 0) (take 2 (document_contents s))"
  have "\<forall>x \<in> set ?sample. score x = 0"
    by (simp add: candidate_for_def)
  then have "sort_reverse score ?sample = ?sample"
    by (rule sort_reverse_const)
  with rank_documents_scored [OF assms(1), of q] scored_empty [OF assms(3)]
  have rank: "rank_documents q s = Inr ?sample" by simp
  from append_documents_entries [of m preamble ?sample] obtain es where
    es: "append_documents m preamble (int (length preamble)) ?sample =
           preamble @ concat (map entry_text es)"
      "prefix (map fst es) ?sample"
    by blast
  from es(2) have "length (map fst es) \<le> length ?sample" by (rule prefix_length_le)
  then have "length es \<le> 2" by simp
  with rank es create_context_ranked [OF rank assms(2), of m] show ?thesis
    by (auto simp: preamble_not_sentinel)
qed

text \<open>No text of the corpus has the only term of this query: both documents are ranked with score 0.\<close>
theorem fallback_first_two_witness:
  "corpus_inv corpus_A \<and> document_contents corpus_A \<noteq> [] \<and>
   str_split (str_lower ''Zebra'') = [''zebra''] \<and>
   \<not> sublist ''zebra'' (str_lower ''The quick brown fox'') \<and>
   \<not> sublist ''zebra'' (str_lower ''Lazy dogs sleep'') \<and>
   rank_documents ''Zebra'' corpus_A =
     Inr [\<lparr>name = ''a.txt'', content = ''The quick brown fox'', score = 0,
           doc_type = ''Plain Text''\<rparr>,
          \<lparr>name = ''b.txt'', content = ''Lazy dogs sleep'', score = 0,
           doc_type = ''Plain Text''\<rparr>]"
proof -
  have ne: "document_contents corpus_A \<noteq> []"
    by (simp add: corpus_A_def)
  have sp: "str_split (str_lower ''Zebra'') = [''zebra'']"
    by (simp add: str_split_def str_lower_def lower_char_def upper_to_lower_def str_isspace_def)
  have n1: "\<not> sublist ''zebra'' (str_lower ''The quick brown fox'')"
    by (simp add: str_lower_def lower_char_def upper_to_lower_def str_in_sublist [symmetric])
  have n2: "\<not> sublist ''zebra'' (str_lower ''Lazy dogs sleep'')"
    by (simp add: str_lower_def lower_char_def upper_to_lower_def str_in_sublist [symmetric])
  have nm: "\<forall>t \<in> set (str_split (str_lower ''Zebra'')). \<forall>item \<in> set (document_contents corpus_A).
      \<not> sublist t (str_lower (snd item))"
    using n1 n2 by (simp add: sp corpus_A_def)
  have "rank_documents ''Zebra'' corpus_A =
          Inr (map (candidate_for corpus_A 0) (take 2 (document_contents corpus_A)))"
    using fallback_first_two [OF corpus_inv_corpus_A ne nm, of 8000] by (rule conjunct1)
  then have "rank_documents ''Zebra'' corpus_A =
     Inr [\<lparr>name = ''a.txt'', content = ''The quick brown fox'', score = 0,
           doc_type = ''Plain Text''\<rparr>,
          \<lparr>name = ''b.txt'', content = ''Lazy dogs sleep'', score = 0,
           doc_type = ''Plain Text''\<rparr>]"
    by (simp add: corpus_A_def candidate_for_def)
  with corpus_inv_corpus_A ne sp n1 n2 show ?thesis by (intro conjI)
qed

text \<open>
  Claim C4. The ranking is a permutation of the candidates, in descending order of score,
  and candidates of equal score keep their order. For two query terms, a document with both
  terms stands before a document that has only the first one, and its score is not smaller.
\<close>
theorem ranked_by_score_stable:
  assumes "corpus_inv s"
  shows "\<exists>cands r.
           cands = (if scored q s = [] then map (candidate_for s 0) (take 2 (document_contents s))
                    else scored q s) \<and>
           rank_documents q s = Inr r \<and>
           mset r = mset cands \<and>
           sorted_wrt (\<lambda>x y. score y \<le> score x) r \<and>
           (\<forall>k. filter (\<lambda>d. score d = k) r = filter (\<lambda>d. score d = k) cands) \<and>
           (\<forall>a b n1 c1 n2 c2.
              set (query_terms_of q) = {a, b} \<and> a \<noteq> b \<and>
              (n1, c1) \<in> set (document_contents s) \<and> (n2, c2) \<in> set (document_contents s) \<and>
              sublist a (str_lower c1) \<and> \<not> sublist b (str_lower c1) \<and>
              sublist a (str_lower c2) \<and> sublist b (str_lower c2) \<longrightarrow>
              (\<exists>i j. i < j \<and> j < length r \<and>
                 name (r ! i) = n2 \<and> content (r ! i) = c2 \<and>
                 name (r ! j) = n1 \<and> content (r ! j) = c1 \<and>
                 score (r ! j) \<le> score (r ! i)))"
proof -
  let ?cands = "if scored q s = [] then map (candidate_for s 0) (take 2 (document_contents s))
                else scored q s"
  let ?r = "sort_reverse score ?cands"
  have rank: "rank_documents q s = Inr ?r"
    by (rule rank_documents_scored [OF assms])
  have pair: "\<exists>i j. i < j \<and> j < length ?r \<and>
                 name (?r ! i) = n2 \<and> content (?r ! i) = c2 \<and>
                 name (?r ! j) = n1 \<and> content (?r ! j) = c1 \<and>
                 score (?r ! j) \<le> score (?r ! i)"
    if q: "set (query_terms_of q) = {a, b}" "a \<noteq> b"
      and d1: "(n1, c1) \<in> set (document_contents s)" "sublist a (str_lower c1)"
        "\<not> sublist b (str_lower c1)"
      and d2: "(n2, c2) \<in> set (document_contents s)" "sublist a (str_lower c2)"
        "sublist b (str_lower c2)"
    for a b n1 c1 n2 c2
  proof -
    from q(1) have terms: "set (str_split (str_lower q)) = {a, b}"
      by (simp add: query_terms_of_def)
    have "{t \<in> {a, b}. sublist t (str_lower c1)} = {a}"
      using d1 by auto
    then have m1: "matches q c1 = 1" by (simp add: matches_def terms)
    have "{t \<in> {a, b}. sublist t (str_lower c2)} = {a, b}"
      using d2 by auto
    then have m2: "matches q c2 = 2" using q(2) by (simp add: matches_def terms)
    let ?x = "candidate_for s 2 (n2, c2)" and ?y = "candidate_for s 1 (n1, c1)"
    have "?x \<in> set (scored q s)"
      using d2(1) m2 by (force simp: scored_def)
    moreover have "?y \<in> set (scored q s)"
      using d1(1) m1 by (force simp: scored_def)
    ultimately have "?x \<in> set ?cands" "?y \<in> set ?cands" by auto
    moreover have "score ?y < score ?x" by (simp add: candidate_for_def)
    ultimately obtain i j where "i < j" "j < length ?r" "?r ! i = ?x" "?r ! j = ?y"
      using sort_reverse_before [of ?x ?cands ?y score] by blast
    then show ?thesis
      by (intro exI [of _ i] exI [of _ j]) (simp add: candidate_for_def)
  qed
  have "mset ?r = mset ?cands"
    by (rule sort_reverse_mset)
  moreover have "sorted_wrt (\<lambda>x y. score y \<le> score x) ?r"
    by (rule sort_reverse_sorted)
  moreover have "\<forall>k. filter (\<lambda>d. score d = k) ?r = filter (\<lambda>d. score d = k) ?cands"
    by (intro allI sort_reverse_stable)
  moreover have "\<forall>a b n1 c1 n2 c2.
              set (query_terms_of q) = {a, b} \<and> a \<noteq> b \<and>
              (n1, c1) \<in> set (document_contents s) \<and> (n2, c2) \<in> set (document_contents s) \<and>
              sublist a (str_lower c1) \<and> \<not> sublist b (str_lower c1) \<and>
              sublist a (str_lower c2) \<and> sublist b (str_lower c2) \<longrightarrow>
              (\<exists>i j. i < j \<and> j < length ?r \<and>
                 name (?r ! i) = n2 \<and> content (?r ! i) = c2 \<and>
                 name (?r ! j) = n1 \<and> content (?r ! j) = c1 \<and>
                 score (?r ! j) \<le> score (?r ! i))"
    by (intro allI impI, elim conjE, rule pair)
  ultimately show ?thesis
    using rank by (intro exI [of _ ?cands] exI [of _ ?r] conjI refl)
qed

lemma corpus_inv_corpus_B: "corpus_inv corpus_B"
  by (simp add: corpus_inv_def corpus_B_def str_strip_def str_isspace_def)

lemma rank_corpus_B:
  "rank_documents ''alpha beta'' corpus_B =
     Inr [\<lparr>name = ''d2.txt'', content = ''Alpha and Beta'', score = 2,
           doc_type = ''PDF Document''\<rparr>,
          \<lparr>name = ''d1.txt'', content = ''alpha only'', score = 1,
           doc_type = ''Plain Text''\<rparr>]"
  by (simp add: rank_documents_def corpus_B_def query_terms_of_def str_split_def str_lower_def
        lower_char_def upper_to_lower_def str_isspace_def term_score_def dict_get_def
        sort_reverse_def)

text \<open>The document with both terms comes second in the corpus and first in the ranking.\<close>
theorem ranked_by_score_stable_witness:
  "corpus_inv corpus_B \<and>
   set (query_terms_of ''alpha beta'') = {''alpha'', ''beta''} \<and>
   sublist ''alpha'' (str_lower ''alpha only'') \<and> \<not> sublist ''beta'' (str_lower ''alpha only'') \<and>
   sublist ''alpha'' (str_lower ''Alpha and Beta'') \<and>
   sublist ''beta'' (str_lower ''Alpha and Beta'') \<and>
   (\<exists>r i j. rank_documents ''alpha beta'' corpus_B = Inr r \<and> i < j \<and> j < length r \<and>
      name (r ! i) = ''d2.txt'' \<and> name (r ! j) = ''d1.txt'' \<and> score (r ! j) \<le> score (r ! i))"
proof -
  have q: "set (query_terms_of ''alpha beta'') = {''alpha'', ''beta''}"
    by (simp add: query_terms_of_def str_split_def str_lower_def lower_char_def
          upper_to_lower_def str_isspace_def)
  have d1: "sublist ''alpha'' (str_lower ''alpha only'')"
    "\<not> sublist ''beta'' (str_lower ''alpha only'')"
    by (simp_all add: str_in_sublist [symmetric] str_lower_def lower_char_def upper_to_lower_def)
  have d2: "sublist ''alpha'' (str_lower ''Alpha and Beta'')"
    "sublist ''beta'' (str_lower ''Alpha and Beta'')"
    by (simp_all add: str_in_sublist [symmetric] str_lower_def lower_char_def upper_to_lower_def)
  have m: "(''d1.txt'', ''alpha only'') \<in> set (document_contents corpus_B)"
    "(''d2.txt'', ''Alpha and Beta'') \<in> set (document_contents corpus_B)"
    by (simp_all add: corpus_B_def)
  from ranked_by_score_stable [OF corpus_inv_corpus_B, of "''alpha beta''"]
  obtain r where r: "rank_documents ''alpha beta'' corpus_B = Inr r"
    and pair: "\<And>a b n1 c1 n2 c2.
              set (query_terms_of ''alpha beta'') = {a, b} \<and> a \<noteq> b \<and>
              (n1, c1) \<in> set (document_contents corpus_B) \<and>
              (n2, c2) \<in> set (document_contents corpus_B) \<and>
              sublist a (str_lower c1) \<and> \<not> sublist b (str_lower c1) \<and>
              sublist a (str_lower c2) \<and> sublist b (str_lower c2) \<Longrightarrow>
              (\<exists>i j. i < j \<and> j < length r \<and>
                 name (r ! i) = n2 \<and> content (r ! i) = c2 \<and>
                 name (r ! j) = n1 \<and> content (r ! j) = c1 \<and>
                 score (r ! j) \<le> score (r ! i))"
    by blast
  have "\<exists>i j. i < j \<and> j < length r \<and>
                 name (r ! i) = ''d2.txt'' \<and> content (r ! i) = ''Alpha and Beta'' \<and>
                 name (r ! j) = ''d1.txt'' \<and> content (r ! j) = ''alpha only'' \<and>
                 score (r ! j) \<le> score (r ! i)"
    using pair [of "''alpha''" "''beta''" "''d1.txt''" "''alpha only''" "''d2.txt''"
        "''Alpha and Beta''"] q d1 d2 m
    by simp
  with r q d1 d2 corpus_inv_corpus_B show ?thesis by blast
qed

subsection \<open>The claim on the budget of the context\<close>

lemma str_strip_nonempty: "str_strip t \<noteq> [] \<Longrightarrow> t \<noteq> []"
  by (auto simp: str_strip_def)

lemma corpus_inv_text_nonempty:
  assumes "corpus_inv s" and "item \<in> set (document_contents s)"
  shows "snd item \<noteq> []"
  using assms by (cases item) (auto simp: corpus_inv_def dest: str_strip_nonempty)

lemma ranked_content_nonempty:
  assumes "corpus_inv s" and "rank_documents q s = Inr ranked" and "d \<in> set ranked"
  shows "content d \<noteq> []"
proof -
  let ?cands = "if scored q s = [] then map (candidate_for s 0) (take 2 (document_contents s))
                else scored q s"
  from assms(2) rank_documents_scored [OF assms(1), of q]
  have "ranked = sort_reverse score ?cands" by simp
  with assms(3) have "d \<in> set ?cands" by (simp add: sort_reverse_def)
  then obtain k item where "d = candidate_for s k item" "item \<in> set (document_contents s)"
    by (auto simp: scored_def dest: in_set_takeD split: if_splits)
  with corpus_inv_text_nonempty [OF assms(1)] show ?thesis
    by (simp add: candidate_for_def)
qed

lemma budgeted_entries_snippets:
  assumes "budgeted_entries m ctx es" and "\<forall>e \<in> set es. content (fst e) \<noteq> []"
  shows "\<forall>e \<in> set es. snd e \<noteq> []"
proof
  fix e assume e: "e \<in> set es"
  then obtain i where i: "i < length es" "es ! i = e" by (auto simp: in_set_conv_nth)
  let ?r = "remaining_for m (ctx @ concat (map entry_text (take i es))) (fst e)"
  from assms(1) i have "0 < ?r" "snd e = take (nat ?r) (content (fst e))"
    by (auto simp: budgeted_entries_def Let_def)
  moreover from assms(2) e have "content (fst e) \<noteq> []" by simp
  ultimately show "snd e \<noteq> []" by simp
qed

lemma length_preamble: "length preamble = 20"
  by (simp add: preamble_def)

lemma create_context_total:
  assumes "corpus_inv s"
  shows "\<exists>ctx. create_context_from_documents q m s = Inr ctx"
  using rank_documents_scored [OF assms, of q]
  by (simp add: create_context_from_documents_def)

lemma create_context_length:
  assumes "create_context_from_documents q m s = Inr ctx"
  shows "int (length ctx) \<le> max 20 (m - 98)"
proof (cases "document_contents s = []")
  case True
  with assms have "ctx = ''No documents loaded.''"
    by (simp add: create_context_from_documents_def)
  then show ?thesis by simp
next
  case False
  with assms obtain ranked where
    "ctx = append_documents m preamble (int (length preamble)) ranked"
    by (auto simp: create_context_from_documents_def split: sum.splits)
  with append_documents_length [of m preamble ranked] show ?thesis
    by (simp add: length_preamble)
qed

text \<open>
  Claim C1. For every corpus, query and character budget \<open>m\<close>, the context that is returned
  has at most \<open>m + 100\<close> characters; a budget is a number of characters, and the bound is
  proved from \<open>m = -80\<close> on, with at most \<open>max 20 (m - 98)\<close> characters for every integer.
  Under the invariant of the stores a context is returned. On a corpus that is not empty
  it is the preamble followed by entries for a prefix of the ranking: an entry is appended
  only where the remaining budget is positive, with the text cut to that budget as snippet,
  and the loop stops only where the remaining budget for the next candidate is not
  positive; under the invariant no snippet is empty.
\<close>
theorem context_within_budget:
  "(\<forall>ctx. create_context_from_documents q m s = Inr ctx \<longrightarrow>
      int (length ctx) \<le> max 20 (m - 98) \<and>
      (- 80 \<le> m \<longrightarrow> int (length ctx) \<le> m + 100)) \<and>
   (corpus_inv s \<longrightarrow> (\<exists>ctx. create_context_from_documents q m s = Inr ctx)) \<and>
   (\<forall>ranked.
      document_contents s \<noteq> [] \<and> rank_documents q s = Inr ranked \<longrightarrow>
      (\<exists>es. create_context_from_documents q m s = Inr (preamble @ concat (map entry_text es)) \<and>
         prefix (map fst es) ranked \<and>
         budgeted_entries m preamble es \<and>
         (length es < length ranked \<longrightarrow>
            remaining_for m (preamble @ concat (map entry_text es)) (ranked ! length es) \<le> 0) \<and>
         (corpus_inv s \<longrightarrow> (\<forall>e \<in> set es. snd e \<noteq> []))))"
proof -
  have bound: "int (length ctx) \<le> max 20 (m - 98) \<and>
      (- 80 \<le> m \<longrightarrow> int (length ctx) \<le> m + 100)"
    if "create_context_from_documents q m s = Inr ctx" for ctx
    using create_context_length [OF that] by auto
  have total: "\<exists>ctx. create_context_from_documents q m s = Inr ctx" if "corpus_inv s"
    by (rule create_context_total [OF that])
  have entries: "\<exists>es. create_context_from_documents q m s =
           Inr (preamble @ concat (map entry_text es)) \<and>
         prefix (map fst es) ranked \<and>
         budgeted_entries m preamble es \<and>
         (length es < length ranked \<longrightarrow>
            remaining_for m (preamble @ concat (map entry_text es)) (ranked ! length es) \<le> 0) \<and>
         (corpus_inv s \<longrightarrow> (\<forall>e \<in> set es. snd e \<noteq> []))"
    if ne: "document_contents s \<noteq> []" and rank: "rank_documents q s = Inr ranked" for ranked
  proof -
    from append_documents_entries [of m preamble ranked] obtain es where
      es: "append_documents m preamble (int (length preamble)) ranked =
             preamble @ concat (map entry_text es)"
        "prefix (map fst es) ranked" "budgeted_entries m preamble es"
        "length es < length ranked \<longrightarrow>
           remaining_for m (preamble @ concat (map entry_text es)) (ranked ! length es) \<le> 0"
      by blast
    have ctx: "create_context_from_documents q m s = Inr (preamble @ concat (map entry_text es))"
      using create_context_ranked [OF rank ne, of m] es(1) by simp
    have sn: "\<forall>e \<in> set es. snd e \<noteq> []" if inv: "corpus_inv s"
    proof -
      have "\<forall>e \<in> set es. content (fst e) \<noteq> []"
      proof
        fix e assume "e \<in> set es"
        then have "fst e \<in> fst ` set es" by (rule imageI)
        then have "fst e \<in> set (map fst es)" by (simp only: set_map)
        moreover from es(2) have "set (map fst es) \<subseteq> set ranked" by (rule set_mono_prefix)
        ultimately have "fst e \<in> set ranked" by (rule rev_subsetD)
        then show "content (fst e) \<noteq> []"
          by (rule ranked_content_nonempty [OF inv rank])
      qed
      with es(3) show ?thesis by (rule budgeted_entries_snippets)
    qed
    from ctx es(2,3,4) sn show ?thesis by (intro exI [of _ es]) blast
  qed
  from bound total entries show ?thesis by (intro conjI allI impI) blast+
qed

lemma context_corpus_A_150:
  "create_context_from_documents ''fox'' 150 corpus_A =
     Inr (''DOCUMENT CONTENTS:'' @ [NL, NL] @ ''=== a.txt (Plain Text) ==='' @ [NL] @
          ''The'' @ [NL, NL])"
  by (simp add: create_context_from_documents_def rank_documents_def corpus_A_def
        query_terms_of_def str_split_def str_lower_def lower_char_def upper_to_lower_def
        str_isspace_def term_score_def dict_get_def sort_reverse_def preamble_def header_of_def
        Let_def)

lemma rank_corpus_A_fox:
  "rank_documents ''fox'' corpus_A =
     Inr [\<lparr>name = ''a.txt'', content = ''The quick brown fox'', score = 1,
           doc_type = ''Plain Text''\<rparr>]"
  by (simp add: rank_documents_def corpus_A_def query_terms_of_def str_split_def str_lower_def
        lower_char_def upper_to_lower_def str_isspace_def term_score_def dict_get_def
        sort_reverse_def)

text \<open>The budget 150 on the corpus of two plain texts leaves three characters of the first one.\<close>
theorem context_within_budget_witness:
  "corpus_inv corpus_A \<and> - 80 \<le> (150 :: int) \<and> document_contents corpus_A \<noteq> [] \<and>
   rank_documents ''fox'' corpus_A =
     Inr [\<lparr>name = ''a.txt'', content = ''The quick brown fox'', score = 1,
           doc_type = ''Plain Text''\<rparr>] \<and>
   create_context_from_documents ''fox'' 150 corpus_A =
     Inr (''DOCUMENT CONTENTS:'' @ [NL, NL] @ ''=== a.txt (Plain Text) ==='' @ [NL] @
          ''The'' @ [NL, NL]) \<and>
   int (length (''DOCUMENT CONTENTS:'' @ [NL, NL] @ ''=== a.txt (Plain Text) ==='' @ [NL] @
          ''The'' @ [NL, NL])) \<le> 150 + 100 \<and>
   (\<exists>es. ''DOCUMENT CONTENTS:'' @ [NL, NL] @ ''=== a.txt (Plain Text) ==='' @ [NL] @
          ''The'' @ [NL, NL] = preamble @ concat (map entry_text es) \<and>
         budgeted_entries 150 preamble es \<and> (\<forall>e \<in> set es. snd e \<noteq> []))"
proof -
  let ?ctx = "''DOCUMENT CONTENTS:'' @ [NL, NL] @ ''=== a.txt (Plain Text) ==='' @ [NL] @
          ''The'' @ [NL, NL]"
  have ne: "document_contents corpus_A \<noteq> []" by (simp add: corpus_A_def)
  have m: "- 80 \<le> (150 :: int)" by simp
  note inst = context_within_budget [of "''fox''" 150 corpus_A]
  from inst context_corpus_A_150 m have len: "int (length ?ctx) \<le> 150 + 100"
    by blast
  from inst ne rank_corpus_A_fox corpus_inv_corpus_A obtain es where
    es: "create_context_from_documents ''fox'' 150 corpus_A =
           Inr (preamble @ concat (map entry_text es))"
      "budgeted_entries 150 preamble es" "\<forall>e \<in> set es. snd e \<noteq> []"
    by blast
  from es(1) have "?ctx = preamble @ concat (map entry_text es)"
    by (simp only: context_corpus_A_150 sum.inject)
  with es(2,3) have "\<exists>es. ?ctx = preamble @ concat (map entry_text es) \<and>
         budgeted_entries 150 preamble es \<and> (\<forall>e \<in> set es. snd e \<noteq> [])"
    by blast
  with corpus_inv_corpus_A m ne rank_corpus_A_fox context_corpus_A_150 len show ?thesis
    by (intro conjI)
qed

subsection \<open>The claims on loading\<close>

lemmas eval_defs =
  load_documents_from_gcs_def process_blob_def extract_text_def extract_from_txt_def
  extract_from_pdf_def after_last_def basename_def gs_uri_def str_lower_def lower_char_def
  upper_to_lower_def str_strip_def str_isspace_def Let_def

lemma extract_a: "extract_text bucket_world ''docs'' ''extracted/a.txt'' = Inr (''The quick brown fox'', ''Plain Text'')"
  by (simp add: bucket_world_def eval_defs)

lemma extract_blank: "extract_text bucket_world ''docs'' ''extracted/blank.txt'' = Inr ([], ''Plain Text'')"
  by (simp add: bucket_world_def eval_defs)

lemma extract_broken: "extract_text bucket_world ''docs'' ''extracted/broken.pdf'' = Inl (Exception ''404 not found'')"
  by (simp add: bucket_world_def eval_defs)

lemma load_first:
  "load_documents_from_gcs bucket_world ''docs'' init = Inr (loaded_first, 1)"
  by (simp add: load_documents_from_gcs_def process_blob_def extract_a extract_blank extract_broken
      bucket_world_def [THEN arg_cong, of list_blobs] bucket_world_def [THEN arg_cong, of utcnow_isoformat]
      init_def loaded_first_def basename_def after_last_def gs_uri_def str_strip_def str_isspace_def
      Let_def)

lemma load_second:
  "load_documents_from_gcs bucket_world_later ''docs'' loaded_first = Inr (loaded_second, 1)"
  by (simp add: load_documents_from_gcs_def process_blob_def bucket_world_later_def
      extract_a extract_blank extract_broken
      bucket_world_def [THEN arg_cong, of list_blobs]
      loaded_first_def loaded_second_def basename_def after_last_def gs_uri_def str_strip_def
      str_isspace_def Let_def)

lemma load_short:
  "load_documents_from_gcs bucket_world_short ''docs'' init = Inr (loaded_first, 1)"
  by (simp add: load_documents_from_gcs_def process_blob_def bucket_world_short_def
      extract_a extract_blank
      bucket_world_def [THEN arg_cong, of utcnow_isoformat]
      init_def loaded_first_def basename_def after_last_def gs_uri_def str_strip_def
      str_isspace_def Let_def)

lemma committed_commit_of: "committed w b blob \<longleftrightarrow> commit_of w b blob \<noteq> None"
  by (simp add: committed_def commit_of_def split: sum.splits prod.splits)

lemma commit_of_key: "commit_of w b blob = Some c \<Longrightarrow> fst c = basename blob"
  by (auto simp: commit_of_def split: sum.splits prod.splits if_splits)

lemma process_blob_keys:
  "fst ` set (document_contents (process_blob w b s blob)) =
     fst ` set (document_contents s) \<union> (if committed w b blob then {basename blob} else {})"
proof (cases "commit_of w b blob")
  case None
  then show ?thesis by (simp add: process_blob_commit_of committed_commit_of)
next
  case (Some c)
  have "fst ` set (dict_set (fst c) (fst (snd c)) (document_contents s)) =
        insert (fst c) (fst ` set (document_contents s))"
    using dict_set_keys [of "fst c" "fst (snd c)" "document_contents s", THEN arg_cong, of set]
    by auto
  with Some commit_of_key [OF Some] show ?thesis
    by (simp add: process_blob_commit_of committed_commit_of)
qed

lemma foldl_process_blob_keys:
  "fst ` set (document_contents (foldl (process_blob w b) s blobs)) =
     fst ` set (document_contents s) \<union> basename ` {blob \<in> set blobs. committed w b blob}"
proof (induction blobs arbitrary: s)
  case Nil
  then show ?case by simp
next
  case (Cons blob blobs)
  show ?case
    unfolding foldl_Cons Cons.IH process_blob_keys by auto
qed

lemma foldl_process_blob_distinct:
  "distinct (map fst (document_contents s)) \<Longrightarrow>
   distinct (map fst (document_contents (foldl (process_blob w b) s blobs)))"
  by (simp add: foldl_process_blob_contents dict_set_all_distinct)

lemma dict_get_dict_set: "dict_get (dict_set k v d) k' = (if k' = k then Inr v else dict_get d k')"
  by (simp add: dict_get_def dict_set_map_of)

text \<open>
  Claim C5. An object whose extracted text is not empty after trimming is stored under its
  base name, the text in one store and the four metadata fields in the other, and no other
  key changes; an object whose text is empty or blank leaves both stores as they were. The
  number returned is the number of entries of the corpus after the run: the keys present
  before together with the base names of the objects stored by this call.
\<close>
theorem load_commits_nonempty_text:
  assumes "list_blobs w b ''extracted/'' = Inr blobs"
  shows "(\<exists>s'. load_documents_from_gcs w b s = Inr (s', length (document_contents s')) \<and>
            s' = foldl (process_blob w b) s blobs \<and>
            fst ` set (document_contents s') =
              fst ` set (document_contents s) \<union>
              basename ` {blob \<in> set blobs. committed w b blob} \<and>
            (distinct (map fst (document_contents s)) \<longrightarrow>
               length (document_contents s') =
                 card (fst ` set (document_contents s) \<union>
                       basename ` {blob \<in> set blobs. committed w b blob}))) \<and>
         (\<forall>s0 blob t ct.
            extract_text w b blob = Inr (t, ct) \<and> str_strip t \<noteq> [] \<longrightarrow>
              dict_get (document_contents (process_blob w b s0 blob)) (basename blob) = Inr t \<and>
              dict_get (document_metadata (process_blob w b s0 blob)) (basename blob) =
                Inr \<lparr>type = ct, size_chars = length t, gcs_path = gs_uri b blob,
                     processed_at = utcnow_isoformat w blob @ ''Z''\<rparr> \<and>
              (\<forall>k. k \<noteq> basename blob \<longrightarrow>
                 dict_get (document_contents (process_blob w b s0 blob)) k =
                   dict_get (document_contents s0) k \<and>
                 dict_get (document_metadata (process_blob w b s0 blob)) k =
                   dict_get (document_metadata s0) k)) \<and>
         (\<forall>s0 blob t ct.
            extract_text w b blob = Inr (t, ct) \<and> str_strip t = [] \<longrightarrow>
              process_blob w b s0 blob = s0)"
proof -
  let ?s' = "foldl (process_blob w b) s blobs"
  let ?keys = "fst ` set (document_contents s) \<union> basename ` {blob \<in> set blobs. committed w b blob}"
  have l: "load_documents_from_gcs w b s = Inr (?s', length (document_contents ?s'))"
    using assms by (simp add: load_documents_from_gcs_def Let_def)
  have k: "fst ` set (document_contents ?s') = ?keys"
    by (rule foldl_process_blob_keys)
  have c: "length (document_contents ?s') = card ?keys"
    if "distinct (map fst (document_contents s))"
  proof -
    from that have "distinct (map fst (document_contents ?s'))"
      by (rule foldl_process_blob_distinct)
    then have "card (set (map fst (document_contents ?s'))) = length (map fst (document_contents ?s'))"
      by (rule distinct_card)
    with k show ?thesis by simp
  qed
  have first: "\<exists>s'. load_documents_from_gcs w b s = Inr (s', length (document_contents s')) \<and>
            s' = ?s' \<and> fst ` set (document_contents s') = ?keys \<and>
            (distinct (map fst (document_contents s)) \<longrightarrow> length (document_contents s') = card ?keys)"
    using l k c by (intro exI [of _ ?s']) simp
  have stored: "\<forall>s0 blob t ct.
            extract_text w b blob = Inr (t, ct) \<and> str_strip t \<noteq> [] \<longrightarrow>
              dict_get (document_contents (process_blob w b s0 blob)) (basename blob) = Inr t \<and>
              dict_get (document_metadata (process_blob w b s0 blob)) (basename blob) =
                Inr \<lparr>type = ct, size_chars = length t, gcs_path = gs_uri b blob,
                     processed_at = utcnow_isoformat w blob @ ''Z''\<rparr> \<and>
              (\<forall>k. k \<noteq> basename blob \<longrightarrow>
                 dict_get (document_contents (process_blob w b s0 blob)) k =
                   dict_get (document_contents s0) k \<and>
                 dict_get (document_metadata (process_blob w b s0 blob)) k =
                   dict_get (document_metadata s0) k)"
    by (simp add: process_blob_def Let_def dict_get_dict_set)
  have skipped: "\<forall>s0 blob t ct.
            extract_text w b blob = Inr (t, ct) \<and> str_strip t = [] \<longrightarrow>
              process_blob w b s0 blob = s0"
    by (simp add: process_blob_def Let_def)
  from first stored skipped show ?thesis by (intro conjI)
qed

text \<open>Of the three objects of the bucket one is stored; the corpus had two documents, and the run returns 3.\<close>
theorem load_commits_nonempty_text_witness:
  "list_blobs bucket_world ''docs'' ''extracted/'' =
     Inr [''extracted/a.txt'', ''extracted/blank.txt'', ''extracted/broken.pdf''] \<and>
   distinct (map fst (document_contents corpus_B)) \<and>
   extract_text bucket_world ''docs'' ''extracted/a.txt'' =
     Inr (''The quick brown fox'', ''Plain Text'') \<and>
   str_strip ''The quick brown fox'' \<noteq> [] \<and>
   extract_text bucket_world ''docs'' ''extracted/blank.txt'' = Inr ([], ''Plain Text'') \<and>
   str_strip [] = [] \<and>
   dict_get (document_contents (process_blob bucket_world ''docs'' corpus_B ''extracted/a.txt''))
     ''a.txt'' = Inr ''The quick brown fox'' \<and>
   process_blob bucket_world ''docs'' corpus_B ''extracted/blank.txt'' = corpus_B \<and>
   (\<exists>s'. load_documents_from_gcs bucket_world ''docs'' corpus_B = Inr (s', 3) \<and>
      length (document_contents s') = 3)"
proof -
  have lb: "list_blobs bucket_world ''docs'' ''extracted/'' =
     Inr [''extracted/a.txt'', ''extracted/blank.txt'', ''extracted/broken.pdf'']"
    by (simp add: bucket_world_def)
  have d: "distinct (map fst (document_contents corpus_B))"
    by (simp add: corpus_B_def)
  have st: "str_strip ''The quick brown fox'' \<noteq> []" "str_strip [] = []"
    by (simp_all add: str_strip_def str_isspace_def)
  have cm: "committed bucket_world ''docs'' ''extracted/a.txt''"
    "\<not> committed bucket_world ''docs'' ''extracted/blank.txt''"
    "\<not> committed bucket_world ''docs'' ''extracted/broken.pdf''"
    by (simp_all add: committed_def extract_a extract_blank extract_broken st)
  have "{blob \<in> set [''extracted/a.txt'', ''extracted/blank.txt'', ''extracted/broken.pdf''].
          committed bucket_world ''docs'' blob} = {''extracted/a.txt''}"
    using cm by auto
  then have keys: "fst ` set (document_contents corpus_B) \<union>
      basename ` {blob \<in> set [''extracted/a.txt'', ''extracted/blank.txt'', ''extracted/broken.pdf''].
          committed bucket_world ''docs'' blob} = {''d1.txt'', ''d2.txt'', ''a.txt''}"
    by (simp add: corpus_B_def basename_def after_last_def insert_commute)
  have card: "card {''d1.txt'', ''d2.txt'', ''a.txt''} = 3" by simp
  note inst = load_commits_nonempty_text [OF lb, of corpus_B]
  from inst obtain s' where
    s': "load_documents_from_gcs bucket_world ''docs'' corpus_B = Inr (s', length (document_contents s'))"
      "distinct (map fst (document_contents corpus_B)) \<longrightarrow>
         length (document_contents s') =
           card (fst ` set (document_contents corpus_B) \<union>
             basename ` {blob \<in> set [''extracted/a.txt'', ''extracted/blank.txt'', ''extracted/broken.pdf''].
               committed bucket_world ''docs'' blob})"
    by blast
  from s'(2) d have n: "length (document_contents s') = 3"
    by (simp only: keys card simp_thms)
  from inst have "dict_get (document_contents (process_blob bucket_world ''docs'' corpus_B ''extracted/a.txt''))
       (basename ''extracted/a.txt'') = Inr ''The quick brown fox''"
    using extract_a st(1) by blast
  then have a: "dict_get (document_contents (process_blob bucket_world ''docs'' corpus_B ''extracted/a.txt''))
     ''a.txt'' = Inr ''The quick brown fox''"
    by (simp add: basename_def after_last_def)
  from inst have bl: "process_blob bucket_world ''docs'' corpus_B ''extracted/blank.txt'' = corpus_B"
    using extract_blank st(2) by blast
  from s'(1) n have "\<exists>s'. load_documents_from_gcs bucket_world ''docs'' corpus_B = Inr (s', 3) \<and>
      length (document_contents s') = 3"
    by (intro exI [of _ s']) simp
  with lb d extract_a extract_blank st a bl show ?thesis by (intro conjI)
qed

lemma foldl_process_blob_skip:
  assumes "extract_text w b blob = Inl e"
  shows "foldl (process_blob w b) s (before @ blob # after) =
         foldl (process_blob w b) s (before @ after)"
  using assms by (simp add: process_blob_def Let_def)

text \<open>
  Claim C6. An exception raised while one object is processed is caught in the loop: the
  object leaves the stores as they were, the run goes on and returns, and its result is the
  result of the same run over the listing without that object. In the extraction helper, an
  exception of the speech service becomes the empty text.
\<close>
theorem failing_object_is_skipped:
  assumes "list_blobs w b ''extracted/'' = Inr (before @ blob # after)"
    and "extract_text w b blob = Inl e"
  shows "(\<exists>s' n. load_documents_from_gcs w b s = Inr (s', n) \<and>
            s' = foldl (process_blob w b) s (before @ after) \<and>
            load_documents_from_gcs
              (w\<lparr>list_blobs := (\<lambda>bucket prefix. Inr (before @ after))\<rparr>) b s = Inr (s', n)) \<and>
         (\<forall>s0. process_blob w b s0 blob = s0) \<and>
         (\<forall>uri m. recognize w (encoding_map (str_lower (splitext_ext uri))) uri = Inl m \<longrightarrow>
            extract_from_audio w uri = [])"
proof -
  let ?s' = "foldl (process_blob w b) s (before @ after)"
  have "load_documents_from_gcs w b s = Inr (?s', length (document_contents ?s'))"
    using assms(1) foldl_process_blob_skip [OF assms(2), of s before after]
    by (simp add: load_documents_from_gcs_def Let_def)
  moreover have "load_documents_from_gcs
              (w\<lparr>list_blobs := (\<lambda>bucket prefix. Inr (before @ after))\<rparr>) b s =
            Inr (?s', length (document_contents ?s'))"
    by (simp add: load_documents_from_gcs_def Let_def process_blob_listing [abs_def])
  moreover have "\<forall>s0. process_blob w b s0 blob = s0"
    using assms(2) by (simp add: process_blob_def Let_def)
  moreover have "\<forall>uri m. recognize w (encoding_map (str_lower (splitext_ext uri))) uri = Inl m \<longrightarrow>
            extract_from_audio w uri = []"
    by (simp add: extract_from_audio_def Let_def)
  ultimately show ?thesis by blast
qed

text \<open>The download of the PDF fails: the run over the bucket gives what the run without the PDF gives.\<close>
theorem failing_object_is_skipped_witness:
  "list_blobs bucket_world ''docs'' ''extracted/'' =
     Inr ([''extracted/a.txt'', ''extracted/blank.txt''] @ ''extracted/broken.pdf'' # []) \<and>
   extract_text bucket_world ''docs'' ''extracted/broken.pdf'' = Inl (Exception ''404 not found'') \<and>
   recognize bucket_world (encoding_map (str_lower (splitext_ext ''gs://docs/extracted/talk.MP3'')))
     ''gs://docs/extracted/talk.MP3'' = Inl ''quota exceeded'' \<and>
   extract_from_audio bucket_world ''gs://docs/extracted/talk.MP3'' = [] \<and>
   process_blob bucket_world ''docs'' corpus_A ''extracted/broken.pdf'' = corpus_A \<and>
   load_documents_from_gcs bucket_world ''docs'' init = Inr (loaded_first, 1) \<and>
   load_documents_from_gcs bucket_world_short ''docs'' init = Inr (loaded_first, 1)"
proof -
  have lb: "list_blobs bucket_world ''docs'' ''extracted/'' =
     Inr ([''extracted/a.txt'', ''extracted/blank.txt''] @ ''extracted/broken.pdf'' # [])"
    by (simp add: bucket_world_def)
  have rc: "recognize bucket_world (encoding_map (str_lower (splitext_ext ''gs://docs/extracted/talk.MP3'')))
     ''gs://docs/extracted/talk.MP3'' = Inl ''quota exceeded''"
    by (simp add: bucket_world_def)
  note inst = failing_object_is_skipped [OF lb extract_broken, of init]
  from inst obtain s' n where
    l: "load_documents_from_gcs bucket_world ''docs'' init = Inr (s', n)"
      "load_documents_from_gcs
         (bucket_world\<lparr>list_blobs := (\<lambda>bucket prefix.
            Inr ([''extracted/a.txt'', ''extracted/blank.txt''] @ []))\<rparr>) ''docs'' init = Inr (s', n)"
    by blast
  from l(1) have e: "s' = loaded_first" "n = 1" by (simp_all add: load_first)
  from l(2) have sh: "load_documents_from_gcs bucket_world_short ''docs'' init = Inr (loaded_first, 1)"
    by (simp only: e bucket_world_short_def)
  from inst have pb: "process_blob bucket_world ''docs'' corpus_A ''extracted/broken.pdf'' = corpus_A"
    by blast
  from inst rc have au: "extract_from_audio bucket_world ''gs://docs/extracted/talk.MP3'' = []"
    by blast
  from lb extract_broken rc au pb load_first sh show ?thesis by (intro conjI)
qed

lemma more_foldl_process_blob:
  "assistant.more (foldl (process_blob w b) s blobs) = assistant.more s"
  by (induction blobs arbitrary: s) (simp_all add: process_blob_commit_of split: option.splits)

lemma corpus_inv_distinct:
  assumes "corpus_inv s"
  shows "distinct (map fst (document_contents s))" and "distinct (map fst (document_metadata s))"
  using assms by (auto simp: corpus_inv_def)

lemma reload_contents:
  assumes "distinct (map fst (document_contents s))"
  shows "document_contents
           (foldl (process_blob (w\<lparr>utcnow_isoformat := clock\<rparr>) b)
              (foldl (process_blob w b) s blobs) blobs) =
         document_contents (foldl (process_blob w b) s blobs)"
  by (simp only: foldl_process_blob_contents commit_of_clock_key dict_set_all_idem [OF assms])

lemma reload_metadata:
  assumes "distinct (map fst (document_metadata s))"
  shows "map (\<lambda>p. (fst p, strip_time (snd p)))
           (document_metadata
              (foldl (process_blob (w\<lparr>utcnow_isoformat := clock\<rparr>) b)
                 (foldl (process_blob w b) s blobs) blobs)) =
         map (\<lambda>p. (fst p, strip_time (snd p)))
           (document_metadata (foldl (process_blob w b) s blobs))"
proof -
  let ?f = "\<lambda>p :: string \<times> metadata. (fst p, strip_time (snd p))"
  have k: "map fst (map ?f (document_metadata s)) = map fst (document_metadata s)"
    by (simp add: comp_def)
  have d: "distinct (map fst (map ?f (document_metadata s)))"
    unfolding k by (rule assms)
  show ?thesis
    by (simp only: foldl_process_blob_metadata map_values_dict_set_all commit_of_clock_meta
          dict_set_all_idem [OF d])
qed

lemma reload_metadata_same_clock:
  assumes "distinct (map fst (document_metadata s))"
  shows "document_metadata (foldl (process_blob w b) (foldl (process_blob w b) s blobs) blobs) =
         document_metadata (foldl (process_blob w b) s blobs)"
  by (simp only: foldl_process_blob_metadata dict_set_all_idem [OF assms])

lemma committed_clock [simp]:
  "committed (w\<lparr>utcnow_isoformat := clock\<rparr>) b blob = committed w b blob"
  by (simp add: committed_def)

lemma process_blob_stored_metadata:
  assumes "extract_text w b blob = Inr (t, ct)" and "str_strip t \<noteq> []"
  shows "dict_get (document_metadata (process_blob w b s blob)) (basename blob) =
         Inr \<lparr>type = ct, size_chars = length t, gcs_path = gs_uri b blob,
              processed_at = utcnow_isoformat w blob @ ''Z''\<rparr>"
  using assms by (simp add: process_blob_def Let_def dict_get_dict_set)

lemma process_blob_other_metadata:
  assumes "committed w b blob \<longrightarrow> basename blob \<noteq> k"
  shows "dict_get (document_metadata (process_blob w b s blob)) k =
         dict_get (document_metadata s) k"
  using assms
  by (auto simp: process_blob_def committed_def Let_def dict_get_dict_set
      split: sum.splits prod.splits)

lemma foldl_process_blob_other_metadata:
  assumes "\<forall>x \<in> set blobs. committed w b x \<longrightarrow> basename x \<noteq> k"
  shows "dict_get (document_metadata (foldl (process_blob w b) s blobs)) k =
         dict_get (document_metadata s) k"
  using assms
proof (induction blobs arbitrary: s)
  case Nil
  then show ?case by simp
next
  case (Cons x blobs)
  from Cons.prems have "committed w b x \<longrightarrow> basename x \<noteq> k"
    and rest: "\<forall>x \<in> set blobs. committed w b x \<longrightarrow> basename x \<noteq> k"
    by simp_all
  then have "dict_get (document_metadata (process_blob w b s x)) k =
      dict_get (document_metadata s) k"
    by (intro process_blob_other_metadata)
  with Cons.IH [OF rest, of "process_blob w b s x"] show ?case by simp
qed

lemma last_stored_metadata:
  assumes "extract_text w b blob = Inr (t, ct)" and "str_strip t \<noteq> []"
    and "\<forall>x \<in> set after. committed w b x \<longrightarrow> basename x \<noteq> basename blob"
  shows "dict_get (document_metadata (foldl (process_blob w b) s (before @ blob # after)))
           (basename blob) =
         Inr \<lparr>type = ct, size_chars = length t, gcs_path = gs_uri b blob,
              processed_at = utcnow_isoformat w blob @ ''Z''\<rparr>"
proof -
  have "dict_get (document_metadata (foldl (process_blob w b) s (before @ blob # after)))
           (basename blob) =
        dict_get (document_metadata (process_blob w b (foldl (process_blob w b) s before) blob))
           (basename blob)"
    using foldl_process_blob_other_metadata [OF assms(3)] by simp
  also have "\<dots> = Inr \<lparr>type = ct, size_chars = length t, gcs_path = gs_uri b blob,
              processed_at = utcnow_isoformat w blob @ ''Z''\<rparr>"
    by (rule process_blob_stored_metadata [OF assms(1,2)])
  finally show ?thesis .
qed

text \<open>
  Claim C9, amended. A second run over the same listing, with the same results of the
  services and any reading of the clock, returns the same count and leaves the same texts
  under the same keys in the same order, and the same metadata but for \<open>processed_at\<close>.
  For every object that a run stores last under its base name, the metadata after the
  first run has the clock reading of the first run as \<open>processed_at\<close> and the metadata
  after the second run has the reading of the second run, the other three fields being the
  same; so the stores differ where these two readings differ, and with the same clock
  readings throughout they are the same.
\<close>
theorem reload_same_but_timestamps:
  assumes "corpus_inv s"
    and "load_documents_from_gcs w b s = Inr (s1, n1)"
  shows "\<exists>s2. load_documents_from_gcs (w\<lparr>utcnow_isoformat := clock\<rparr>) b s1 = Inr (s2, n1) \<and>
           document_contents s2 = document_contents s1 \<and>
           without_times s2 = without_times s1 \<and>
           (clock = utcnow_isoformat w \<longrightarrow> s2 = s1) \<and>
           (\<forall>before blob after t ct.
              list_blobs w b ''extracted/'' = Inr (before @ blob # after) \<and>
              extract_text w b blob = Inr (t, ct) \<and> str_strip t \<noteq> [] \<and>
              (\<forall>x \<in> set after. committed w b x \<longrightarrow> basename x \<noteq> basename blob) \<longrightarrow>
              dict_get (document_metadata s1) (basename blob) =
                Inr \<lparr>type = ct, size_chars = length t, gcs_path = gs_uri b blob,
                     processed_at = utcnow_isoformat w blob @ ''Z''\<rparr> \<and>
              dict_get (document_metadata s2) (basename blob) =
                Inr \<lparr>type = ct, size_chars = length t, gcs_path = gs_uri b blob,
                     processed_at = clock blob @ ''Z''\<rparr> \<and>
              (clock blob \<noteq> utcnow_isoformat w blob \<longrightarrow> s2 \<noteq> s1))"
proof -
  let ?w2 = "w\<lparr>utcnow_isoformat := clock\<rparr>"
  from assms(2) obtain blobs where
    lb: "list_blobs w b ''extracted/'' = Inr blobs"
    and s1: "s1 = foldl (process_blob w b) s blobs"
    and n1: "n1 = length (document_contents s1)"
    by (auto simp: load_documents_from_gcs_def Let_def split: sum.splits)
  let ?s2 = "foldl (process_blob ?w2 b) s1 blobs"
  have c: "document_contents ?s2 = document_contents s1"
    unfolding s1 by (rule reload_contents [OF corpus_inv_distinct(1) [OF assms(1)]])
  have m: "map (\<lambda>p. (fst p, strip_time (snd p))) (document_metadata ?s2) =
           map (\<lambda>p. (fst p, strip_time (snd p))) (document_metadata s1)"
    unfolding s1 by (rule reload_metadata [OF corpus_inv_distinct(2) [OF assms(1)]])
  have l2: "load_documents_from_gcs ?w2 b s1 = Inr (?s2, n1)"
    using lb by (simp add: load_documents_from_gcs_def Let_def c n1)
  have wt: "without_times ?s2 = without_times s1"
    by (rule assistant.equality) (simp_all add: without_times_def c m more_foldl_process_blob)
  have same: "?s2 = s1" if "clock = utcnow_isoformat w"
  proof -
    from that have w2: "?w2 = w" by simp
    have "document_metadata ?s2 = document_metadata s1"
      unfolding w2 s1
      by (rule reload_metadata_same_clock [OF corpus_inv_distinct(2) [OF assms(1)]])
    with c show ?thesis
      by (intro assistant.equality) (simp_all add: more_foldl_process_blob)
  qed
  have stamps: "dict_get (document_metadata s1) (basename blob) =
                Inr \<lparr>type = ct, size_chars = length t, gcs_path = gs_uri b blob,
                     processed_at = utcnow_isoformat w blob @ ''Z''\<rparr> \<and>
              dict_get (document_metadata ?s2) (basename blob) =
                Inr \<lparr>type = ct, size_chars = length t, gcs_path = gs_uri b blob,
                     processed_at = clock blob @ ''Z''\<rparr> \<and>
              (clock blob \<noteq> utcnow_isoformat w blob \<longrightarrow> ?s2 \<noteq> s1)"
    if l: "list_blobs w b ''extracted/'' = Inr (before @ blob # after)"
      and e: "extract_text w b blob = Inr (t, ct)" "str_strip t \<noteq> []"
      and a: "\<forall>x \<in> set after. committed w b x \<longrightarrow> basename x \<noteq> basename blob"
    for before blob after t ct
  proof -
    from l lb have blobs: "blobs = before @ blob # after" by simp
    have g1: "dict_get (document_metadata s1) (basename blob) =
                Inr \<lparr>type = ct, size_chars = length t, gcs_path = gs_uri b blob,
                     processed_at = utcnow_isoformat w blob @ ''Z''\<rparr>"
      unfolding s1 blobs by (rule last_stored_metadata [OF e a])
    have e2: "extract_text ?w2 b blob = Inr (t, ct)" using e(1) by simp
    have a2: "\<forall>x \<in> set after. committed ?w2 b x \<longrightarrow> basename x \<noteq> basename blob"
      using a by simp
    have "dict_get (document_metadata ?s2) (basename blob) =
                Inr \<lparr>type = ct, size_chars = length t, gcs_path = gs_uri b blob,
                     processed_at = utcnow_isoformat ?w2 blob @ ''Z''\<rparr>"
      unfolding blobs by (rule last_stored_metadata [OF e2 e(2) a2])
    then have g2: "dict_get (document_metadata ?s2) (basename blob) =
                Inr \<lparr>type = ct, size_chars = length t, gcs_path = gs_uri b blob,
                     processed_at = clock blob @ ''Z''\<rparr>"
      by simp
    have "?s2 \<noteq> s1" if "clock blob \<noteq> utcnow_isoformat w blob"
    proof
      assume "?s2 = s1"
      with g1 g2 have "clock blob @ ''Z'' = utcnow_isoformat w blob @ ''Z''" by simp
      with that show False by simp
    qed
    with g1 g2 show ?thesis by blast
  qed
  have "\<forall>before blob after t ct.
              list_blobs w b ''extracted/'' = Inr (before @ blob # after) \<and>
              extract_text w b blob = Inr (t, ct) \<and> str_strip t \<noteq> [] \<and>
              (\<forall>x \<in> set after. committed w b x \<longrightarrow> basename x \<noteq> basename blob) \<longrightarrow>
              dict_get (document_metadata s1) (basename blob) =
                Inr \<lparr>type = ct, size_chars = length t, gcs_path = gs_uri b blob,
                     processed_at = utcnow_isoformat w blob @ ''Z''\<rparr> \<and>
              dict_get (document_metadata ?s2) (basename blob) =
                Inr \<lparr>type = ct, size_chars = length t, gcs_path = gs_uri b blob,
                     processed_at = clock blob @ ''Z''\<rparr> \<and>
              (clock blob \<noteq> utcnow_isoformat w blob \<longrightarrow> ?s2 \<noteq> s1)"
    by (intro allI impI, elim conjE, rule stamps)
  with l2 c wt same show ?thesis by (intro exI [of _ ?s2]) simp
qed

text \<open>The bucket read again a day later: the same text, the same metadata but for the new time of processing.\<close>
theorem reload_same_but_timestamps_witness:
  "corpus_inv init \<and>
   load_documents_from_gcs bucket_world ''docs'' init = Inr (loaded_first, 1) \<and>
   list_blobs bucket_world ''docs'' ''extracted/'' =
     Inr ([] @ ''extracted/a.txt'' # [''extracted/blank.txt'', ''extracted/broken.pdf'']) \<and>
   extract_text bucket_world ''docs'' ''extracted/a.txt'' =
     Inr (''The quick brown fox'', ''Plain Text'') \<and>
   str_strip ''The quick brown fox'' \<noteq> [] \<and>
   \<not> committed bucket_world ''docs'' ''extracted/blank.txt'' \<and>
   \<not> committed bucket_world ''docs'' ''extracted/broken.pdf'' \<and>
   ''2025-01-02T00:00:00'' \<noteq> utcnow_isoformat bucket_world ''extracted/a.txt'' \<and>
   load_documents_from_gcs bucket_world_later ''docs'' loaded_first = Inr (loaded_second, 1) \<and>
   document_contents loaded_second = document_contents loaded_first \<and>
   without_times loaded_second = without_times loaded_first \<and>
   dict_get (document_metadata loaded_second) (basename ''extracted/a.txt'') =
     Inr \<lparr>type = ''Plain Text'', size_chars = length ''The quick brown fox'',
          gcs_path = gs_uri ''docs'' ''extracted/a.txt'',
          processed_at = ''2025-01-02T00:00:00'' @ ''Z''\<rparr> \<and>
   loaded_second \<noteq> loaded_first"
proof -
  have lb: "list_blobs bucket_world ''docs'' ''extracted/'' =
     Inr ([] @ ''extracted/a.txt'' # [''extracted/blank.txt'', ''extracted/broken.pdf''])"
    by (simp add: bucket_world_def)
  have st: "str_strip ''The quick brown fox'' \<noteq> []" "str_strip [] = []"
    by (simp_all add: str_strip_def str_isspace_def)
  have nc: "\<not> committed bucket_world ''docs'' ''extracted/blank.txt''"
    "\<not> committed bucket_world ''docs'' ''extracted/broken.pdf''"
    by (simp_all add: committed_def extract_blank extract_broken st)
  then have after: "\<forall>x \<in> set [''extracted/blank.txt'', ''extracted/broken.pdf''].
      committed bucket_world ''docs'' x \<longrightarrow> basename x \<noteq> basename ''extracted/a.txt''"
    by simp
  have ck: "''2025-01-02T00:00:00'' \<noteq> utcnow_isoformat bucket_world ''extracted/a.txt''"
    by (simp add: bucket_world_def)
  from reload_same_but_timestamps [OF corpus_inv_init load_first,
      of "\<lambda>blob_name. ''2025-01-02T00:00:00''"]
  obtain s2 where
    s2: "load_documents_from_gcs bucket_world_later ''docs'' loaded_first = Inr (s2, 1)"
      "document_contents s2 = document_contents loaded_first"
      "without_times s2 = without_times loaded_first"
    and stamps: "\<And>before blob after t ct.
              list_blobs bucket_world ''docs'' ''extracted/'' = Inr (before @ blob # after) \<and>
              extract_text bucket_world ''docs'' blob = Inr (t, ct) \<and> str_strip t \<noteq> [] \<and>
              (\<forall>x \<in> set after. committed bucket_world ''docs'' x \<longrightarrow> basename x \<noteq> basename blob) \<Longrightarrow>
              dict_get (document_metadata s2) (basename blob) =
                Inr \<lparr>type = ct, size_chars = length t, gcs_path = gs_uri ''docs'' blob,
                     processed_at = ''2025-01-02T00:00:00'' @ ''Z''\<rparr> \<and>
              (''2025-01-02T00:00:00'' \<noteq> utcnow_isoformat bucket_world blob \<longrightarrow> s2 \<noteq> loaded_first)"
    unfolding bucket_world_later_def by blast
  from s2(1) have eq: "s2 = loaded_second" by (simp add: load_second)
  from stamps [of "[]" "''extracted/a.txt''" "[''extracted/blank.txt'', ''extracted/broken.pdf'']"
      "''The quick brown fox''" "''Plain Text''"] lb extract_a st(1) after ck
  have "dict_get (document_metadata s2) (basename ''extracted/a.txt'') =
     Inr \<lparr>type = ''Plain Text'', size_chars = length ''The quick brown fox'',
          gcs_path = gs_uri ''docs'' ''extracted/a.txt'',
          processed_at = ''2025-01-02T00:00:00'' @ ''Z''\<rparr>" "s2 \<noteq> loaded_first"
    by blast+
  with s2 corpus_inv_init load_first lb extract_a st(1) nc ck show ?thesis
    unfolding eq by (intro conjI)
qed

text \<open>
  Claim C9 as stated fails: after a second run at a later time over the same bucket, with
  the same results of the services, the metadata of the document differs in
  \<open>processed_at\<close>.
\<close>
theorem reload_counterexample:
  "load_documents_from_gcs bucket_world ''docs'' init = Inr (loaded_first, 1) \<and>
   load_documents_from_gcs bucket_world_later ''docs'' loaded_first = Inr (loaded_second, 1) \<and>
   document_metadata loaded_second \<noteq> document_metadata loaded_first"
  using load_first load_second by (simp add: loaded_first_def loaded_second_def)

subsection \<open>The claims on answering and on sequences of calls\<close>

text \<open>
  Claim C7. On a corpus that is not empty, when the call of the language model returns, the
  result has the trimmed text of the response as answer, the identifiers of all loaded
  documents as sources (whichever of them the context holds), their number as
  \<open>documents_used\<close>, the confidence \<open>high\<close> and the length of the context as
  \<open>context_length\<close>.
\<close>
theorem ask_question_success:
  assumes "corpus_inv s" and "document_contents s \<noteq> []"
  shows "\<exists>context. create_context_from_documents question 8000 s = Inr context \<and>
           (\<forall>response_text.
              model (question_prompt question context) = Inr response_text \<longrightarrow>
              ask_question model question s =
                Inr \<lparr>answer = str_strip response_text,
                     sources = map fst (document_contents s),
                     confidence = ''high'',
                     context_length = Some (length context),
                     documents_used = Some (length (document_contents s))\<rparr>)"
proof -
  from create_context_total [OF assms(1), of question 8000] obtain ctx where
    c: "create_context_from_documents question 8000 s = Inr ctx" by blast
  have "ask_question model question s =
          Inr \<lparr>answer = str_strip response_text, sources = map fst (document_contents s),
               confidence = ''high'', context_length = Some (length ctx),
               documents_used = Some (length (document_contents s))\<rparr>"
    if "model (question_prompt question ctx) = Inr response_text" for response_text
    using that assms(2) c by (simp add: ask_question_def Let_def)
  with c show ?thesis by blast
qed

lemma context_corpus_A_fox:
  "create_context_from_documents ''fox'' 8000 corpus_A =
     Inr (''DOCUMENT CONTENTS:'' @ [NL, NL] @ ''=== a.txt (Plain Text) ==='' @ [NL] @
          ''The quick brown fox'' @ [NL, NL])"
  by (simp add: create_context_from_documents_def rank_documents_def corpus_A_def
        query_terms_of_def str_split_def str_lower_def lower_char_def upper_to_lower_def
        str_isspace_def term_score_def dict_get_def sort_reverse_def preamble_def header_of_def
        Let_def)

text \<open>The context holds the first document only; both documents are named as sources.\<close>
theorem ask_question_success_witness:
  "corpus_inv corpus_A \<and> document_contents corpus_A \<noteq> [] \<and>
   create_context_from_documents ''fox'' 8000 corpus_A =
     Inr (''DOCUMENT CONTENTS:'' @ [NL, NL] @ ''=== a.txt (Plain Text) ==='' @ [NL] @
          ''The quick brown fox'' @ [NL, NL]) \<and>
   ask_question (\<lambda>prompt. Inr '' A fox. '') ''fox'' corpus_A =
     Inr \<lparr>answer = ''A fox.'', sources = [''a.txt'', ''b.txt''], confidence = ''high'',
          context_length = Some 68, documents_used = Some 2\<rparr>"
proof -
  have ne: "document_contents corpus_A \<noteq> []" by (simp add: corpus_A_def)
  from ask_question_success [OF corpus_inv_corpus_A ne, of "''fox''" "\<lambda>prompt. Inr '' A fox. ''"]
  have "ask_question (\<lambda>prompt. Inr '' A fox. '') ''fox'' corpus_A =
          Inr \<lparr>answer = str_strip '' A fox. '',
               sources = map fst (document_contents corpus_A),
               confidence = ''high'',
               context_length = Some (length (''DOCUMENT CONTENTS:'' @ [NL, NL] @
                 ''=== a.txt (Plain Text) ==='' @ [NL] @ ''The quick brown fox'' @ [NL, NL])),
               documents_used = Some (length (document_contents corpus_A))\<rparr>"
    by (simp add: context_corpus_A_fox)
  then have "ask_question (\<lambda>prompt. Inr '' A fox. '') ''fox'' corpus_A =
     Inr \<lparr>answer = ''A fox.'', sources = [''a.txt'', ''b.txt''], confidence = ''high'',
          context_length = Some 68, documents_used = Some 2\<rparr>"
    by (simp add: corpus_A_def str_strip_def str_isspace_def)
  with corpus_inv_corpus_A ne context_corpus_A_fox show ?thesis by (intro conjI)
qed

text \<open>
  Claim C8. On a corpus that is not empty, when the call of the language model raises, the
  method returns: the answer is the error text with the text of the exception, there are no
  sources, the confidence is \<open>error\<close>, and the two stores are as before the call.
\<close>
theorem ask_question_llm_failure:
  assumes "corpus_inv s" and "document_contents s \<noteq> []"
  shows "\<exists>context. create_context_from_documents question 8000 s = Inr context \<and>
           (\<forall>exc.
              model (question_prompt question context) = Inl exc \<longrightarrow>
              ask_question model question s =
                Inr \<lparr>answer = ''Error generating response: '' @ exc,
                     sources = [], confidence = ''error'',
                     context_length = None, documents_used = None\<rparr> \<and>
              run_call s (Ask model question) = s)"
proof -
  from create_context_total [OF assms(1), of question 8000] obtain ctx where
    c: "create_context_from_documents question 8000 s = Inr ctx" by blast
  have "ask_question model question s =
          Inr \<lparr>answer = ''Error generating response: '' @ exc, sources = [],
               confidence = ''error'', context_length = None, documents_used = None\<rparr> \<and>
        run_call s (Ask model question) = s"
    if "model (question_prompt question ctx) = Inl exc" for exc
    using that assms(2) c by (simp add: ask_question_def)
  with c show ?thesis by blast
qed

text \<open>A model that is unavailable.\<close>
theorem ask_question_llm_failure_witness:
  "corpus_inv corpus_A \<and> document_contents corpus_A \<noteq> [] \<and>
   ask_question (\<lambda>prompt. Inl ''503 unavailable'') ''fox'' corpus_A =
     Inr \<lparr>answer = ''Error generating response: 503 unavailable'', sources = [],
          confidence = ''error'', context_length = None, documents_used = None\<rparr> \<and>
   run_call corpus_A (Ask (\<lambda>prompt. Inl ''503 unavailable'') ''fox'') = corpus_A"
proof -
  have ne: "document_contents corpus_A \<noteq> []" by (simp add: corpus_A_def)
  from ask_question_llm_failure [OF corpus_inv_corpus_A ne, of "''fox''"
      "\<lambda>prompt. Inl ''503 unavailable''"]
  have "ask_question (\<lambda>prompt. Inl ''503 unavailable'') ''fox'' corpus_A =
          Inr \<lparr>answer = ''Error generating response: '' @ ''503 unavailable'', sources = [],
               confidence = ''error'', context_length = None, documents_used = None\<rparr> \<and>
        run_call corpus_A (Ask (\<lambda>prompt. Inl ''503 unavailable'') ''fox'') = corpus_A"
    by blast
  with corpus_inv_corpus_A ne show ?thesis by simp
qed

lemma search_loop_total:
  assumes "\<forall>item \<in> set items. map_of md (fst item) \<noteq> None"
  shows "\<exists>hits. search_loop trm md items = Inr hits"
  using assms
proof (induction items)
  case Nil
  then show ?case by simp
next
  case (Cons item items)
  obtain n c where item: "item = (n, c)" by (cases item)
  from Cons.prems obtain m where m: "map_of md n = Some m" by (auto simp: item)
  from Cons obtain hits where "search_loop trm md items = Inr hits" by auto
  then show ?case by (simp add: item Let_def dict_get_def m)
qed

lemma search_documents_total:
  assumes "corpus_inv s"
  shows "\<exists>hits. search_documents trm s = Inr hits"
  unfolding search_documents_def
  by (rule search_loop_total) (simp add: corpus_inv_keys [OF assms])

lemma corpus_inv_lookup:
  assumes "corpus_inv s" and "dict_get (document_contents s) k = Inr t"
  shows "str_strip t \<noteq> [] \<and> (\<exists>m. dict_get (document_metadata s) k = Inr m \<and> size_chars m = length t)"
proof -
  from assms(2) have "map_of (document_contents s) k = Some t"
    by (simp add: dict_get_def split: option.splits)
  then have "(k, t) \<in> set (document_contents s)" by (rule map_of_SomeD)
  with assms(1) show ?thesis
    by (auto simp: corpus_inv_def dict_get_def split: option.splits)
qed

text \<open>
  Claim C10. After any sequence of calls of the five public methods, starting from the new
  assistant, the two stores have the same keys, every stored text is not empty after
  trimming and its metadata records its length as \<open>size_chars\<close>; hence building a context,
  searching and listing find the metadata of every document and raise no \<open>KeyError\<close>.
\<close>
theorem stores_stay_consistent:
  "corpus_inv (run_calls calls) \<and>
   fst ` set (document_contents (run_calls calls)) =
     fst ` set (document_metadata (run_calls calls)) \<and>
   (\<forall>k t. dict_get (document_contents (run_calls calls)) k = Inr t \<longrightarrow>
      str_strip t \<noteq> [] \<and>
      (\<exists>m. dict_get (document_metadata (run_calls calls)) k = Inr m \<and>
           size_chars m = length t)) \<and>
   (\<forall>query max_context_len.
      \<exists>ctx. create_context_from_documents query max_context_len (run_calls calls) = Inr ctx) \<and>
   (\<forall>trm. \<exists>hits. search_documents trm (run_calls calls) = Inr hits) \<and>
   map fst (list_documents (run_calls calls)) = map fst (document_contents (run_calls calls))"
proof -
  have inv: "corpus_inv (run_calls calls)"
    unfolding run_calls_def by (rule corpus_inv_foldl_calls [OF corpus_inv_init])
  then have keys: "map fst (document_contents (run_calls calls)) =
      map fst (document_metadata (run_calls calls))"
    by (simp add: corpus_inv_def)
  from keys have "set (map fst (document_contents (run_calls calls))) =
      set (map fst (document_metadata (run_calls calls)))"
    by (rule arg_cong)
  then have ks: "fst ` set (document_contents (run_calls calls)) =
     fst ` set (document_metadata (run_calls calls))"
    by (simp only: set_map)
  have ls: "map fst (list_documents (run_calls calls)) =
      map fst (document_contents (run_calls calls))"
    by (simp add: list_documents_def keys case_prod_unfold)
  from inv ks ls corpus_inv_lookup [OF inv] create_context_total [OF inv]
    search_documents_total [OF inv]
  show ?thesis by (intro conjI allI impI) blast+
qed

text \<open>Six calls, two of them runs of the loader.\<close>
theorem stores_stay_consistent_witness:
  "run_calls [Load bucket_world ''docs'', Ask (\<lambda>prompt. Inl ''503 unavailable'') ''fox'',
              Search ''quick'', Load bucket_world_later ''docs'', ListDocuments,
              Summary (\<lambda>prompt. Inr ''One document.'')] = loaded_second \<and>
   corpus_inv loaded_second \<and>
   dict_get (document_contents loaded_second) ''a.txt'' = Inr ''The quick brown fox'' \<and>
   str_strip ''The quick brown fox'' \<noteq> [] \<and>
   (\<exists>m. dict_get (document_metadata loaded_second) ''a.txt'' = Inr m \<and> size_chars m = 19)"
proof -
  let ?calls = "[Load bucket_world ''docs'', Ask (\<lambda>prompt. Inl ''503 unavailable'') ''fox'',
              Search ''quick'', Load bucket_world_later ''docs'', ListDocuments,
              Summary (\<lambda>prompt. Inr ''One document.'')]"
  have r: "run_calls ?calls = loaded_second"
    by (simp add: run_calls_def load_first load_second)
  have g: "dict_get (document_contents loaded_second) ''a.txt'' = Inr ''The quick brown fox''"
    by (simp add: loaded_second_def dict_get_def)
  note inst = stores_stay_consistent [of ?calls, unfolded r]
  from inst have inv: "corpus_inv loaded_second" by blast
  from inst g have "str_strip ''The quick brown fox'' \<noteq> [] \<and>
      (\<exists>m. dict_get (document_metadata loaded_second) ''a.txt'' = Inr m \<and>
           size_chars m = length ''The quick brown fox'')"
    by blast
  moreover have "length ''The quick brown fox'' = 19" by simp
  ultimately have "str_strip ''The quick brown fox'' \<noteq> [] \<and>
      (\<exists>m. dict_get (document_metadata loaded_second) ''a.txt'' = Inr m \<and> size_chars m = 19)"
    by (simp only: simp_thms)
  with r inv g show ?thesis by (intro conjI) blast+
qed

end
